theory Spec2Isabelle
  imports Main "HOL-Library.Word" "HOL-Library.Sublist"
begin

section \<open>JavaScript strings and values\<close>

text \<open>
  The program is a Node.js script (\<^verbatim>\<open>src/scripts/gbp-reviews-daily.js\<close>).  A JavaScript
  string is a sequence of UTF-16 code units, so a string is a list of 16-bit words.
  \<open>lit\<close> embeds an ASCII literal of the source; a code unit outside ASCII (the U+00DC of
  the German translation marker, the dash U+2014) is written as its number.
\<close>

type_synonym jschar = "16 word"
type_synonym jsstring = "jschar list"

definition lit :: "string \<Rightarrow> jsstring" where
  "lit s = map of_char s"

text \<open>
  A thrown value is an \<^verbatim>\<open>Error\<close> object: its constructor and its message.  \<open>show_nat\<close>
  prints a natural number in decimal, as a template literal prints a status code.
\<close>

datatype errkind = Error | TypeError | SyntaxError

datatype jserror = Thrown errkind jsstring

fun message :: "jserror \<Rightarrow> jsstring" where
  "message (Thrown k msg) = msg"

fun show_nat :: "nat \<Rightarrow> jsstring" where
  "show_nat n = (if n < 10 then [of_nat (48 + n)] else show_nat (n div 10) @ [of_nat (48 + n mod 10)])"

declare show_nat.simps [simp del]

subsection \<open>Upper case\<close>

text \<open>
  \<^verbatim>\<open>String.prototype.toUpperCase\<close> reads the string as a sequence of code points (a high
  surrogate followed by a low surrogate is one code point, any other code unit is one by
  itself), replaces every code point by its upper-case form in the Unicode Character
  Database, which may be several code points, and writes the result in UTF-16 again.  The
  mapping depends on neither the locale nor the context.

  The table below is that of Unicode 15.0 (the same as in 14.0): \<open>upper_special\<close> holds the
  102 code points of \<^verbatim>\<open>SpecialCasing.txt\<close> whose upper-case form has more than one code
  point; \<open>upper_ranges\<close> holds the 1423 simple mappings of \<^verbatim>\<open>UnicodeData.txt\<close>, an entry
  \<open>(a, b, st, to)\<close> standing for the code points \<open>a, a + st, \<dots>, b\<close>, which map to
  \<open>to, to + st, \<dots>\<close>.  Every other code point is its own upper-case form.
\<close>

fun code_points :: "jsstring \<Rightarrow> int list" where
  "code_points [] = []"
| "code_points [h] = [uint h]"
| "code_points (h # l # r) =
     (if 0xD800 \<le> h \<and> h \<le> 0xDBFF \<and> 0xDC00 \<le> l \<and> l \<le> 0xDFFF
      then (0x10000 + (uint h - 0xD800) * 0x400 + (uint l - 0xDC00)) # code_points r
      else uint h # code_points (l # r))"

definition code_units :: "int \<Rightarrow> jsstring" where
  "code_units c =
     (if c < 0x10000 then [word_of_int c]
      else [word_of_int (0xD800 + (c - 0x10000) div 0x400),
            word_of_int (0xDC00 + (c - 0x10000) mod 0x400)])"

definition upper_ranges :: "(int \<times> int \<times> int \<times> int) list" where
  "upper_ranges =
    [
     (0x61, 0x7A, 1, 0x41), (0xB5, 0xB5, 1, 0x39C), (0xE0, 0xF6, 1, 0xC0),
     (0xF8, 0xFE, 1, 0xD8), (0xFF, 0xFF, 1, 0x178), (0x101, 0x12F, 2, 0x100),
     (0x131, 0x131, 1, 0x49), (0x133, 0x137, 2, 0x132), (0x13A, 0x148, 2, 0x139),
     (0x14B, 0x177, 2, 0x14A), (0x17A, 0x17E, 2, 0x179), (0x17F, 0x17F, 1, 0x53),
     (0x180, 0x180, 1, 0x243), (0x183, 0x185, 2, 0x182), (0x188, 0x188, 1, 0x187),
     (0x18C, 0x18C, 1, 0x18B), (0x192, 0x192, 1, 0x191), (0x195, 0x195, 1, 0x1F6),
     (0x199, 0x199, 1, 0x198), (0x19A, 0x19A, 1, 0x23D), (0x19E, 0x19E, 1, 0x220),
     (0x1A1, 0x1A5, 2, 0x1A0), (0x1A8, 0x1A8, 1, 0x1A7), (0x1AD, 0x1AD, 1, 0x1AC),
     (0x1B0, 0x1B0, 1, 0x1AF), (0x1B4, 0x1B6, 2, 0x1B3), (0x1B9, 0x1B9, 1, 0x1B8),
     (0x1BD, 0x1BD, 1, 0x1BC), (0x1BF, 0x1BF, 1, 0x1F7), (0x1C5, 0x1C5, 1, 0x1C4),
     (0x1C6, 0x1C6, 1, 0x1C4), (0x1C8, 0x1C8, 1, 0x1C7), (0x1C9, 0x1C9, 1, 0x1C7),
     (0x1CB, 0x1CB, 1, 0x1CA), (0x1CC, 0x1CC, 1, 0x1CA), (0x1CE, 0x1DC, 2, 0x1CD),
     (0x1DD, 0x1DD, 1, 0x18E), (0x1DF, 0x1EF, 2, 0x1DE), (0x1F2, 0x1F2, 1, 0x1F1),
     (0x1F3, 0x1F3, 1, 0x1F1), (0x1F5, 0x1F5, 1, 0x1F4), (0x1F9, 0x21F, 2, 0x1F8),
     (0x223, 0x233, 2, 0x222), (0x23C, 0x23C, 1, 0x23B), (0x23F, 0x240, 1, 0x2C7E),
     (0x242, 0x242, 1, 0x241), (0x247, 0x24F, 2, 0x246), (0x250, 0x250, 1, 0x2C6F),
     (0x251, 0x251, 1, 0x2C6D), (0x252, 0x252, 1, 0x2C70), (0x253, 0x253, 1, 0x181),
     (0x254, 0x254, 1, 0x186), (0x256, 0x257, 1, 0x189), (0x259, 0x259, 1, 0x18F),
     (0x25B, 0x25B, 1, 0x190), (0x25C, 0x25C, 1, 0xA7AB), (0x260, 0x260, 1, 0x193),
     (0x261, 0x261, 1, 0xA7AC), (0x263, 0x263, 1, 0x194), (0x265, 0x265, 1, 0xA78D),
     (0x266, 0x266, 1, 0xA7AA), (0x268, 0x268, 1, 0x197), (0x269, 0x269, 1, 0x196),
     (0x26A, 0x26A, 1, 0xA7AE), (0x26B, 0x26B, 1, 0x2C62), (0x26C, 0x26C, 1, 0xA7AD),
     (0x26F, 0x26F, 1, 0x19C), (0x271, 0x271, 1, 0x2C6E), (0x272, 0x272, 1, 0x19D),
     (0x275, 0x275, 1, 0x19F), (0x27D, 0x27D, 1, 0x2C64), (0x280, 0x280, 1, 0x1A6),
     (0x282, 0x282, 1, 0xA7C5), (0x283, 0x283, 1, 0x1A9), (0x287, 0x287, 1, 0xA7B1),
     (0x288, 0x288, 1, 0x1AE), (0x289, 0x289, 1, 0x244), (0x28A, 0x28B, 1, 0x1B1),
     (0x28C, 0x28C, 1, 0x245), (0x292, 0x292, 1, 0x1B7), (0x29D, 0x29D, 1, 0xA7B2),
     (0x29E, 0x29E, 1, 0xA7B0), (0x345, 0x345, 1, 0x399), (0x371, 0x373, 2, 0x370),
     (0x377, 0x377, 1, 0x376), (0x37B, 0x37D, 1, 0x3FD), (0x3AC, 0x3AC, 1, 0x386),
     (0x3AD, 0x3AF, 1, 0x388), (0x3B1, 0x3C1, 1, 0x391), (0x3C2, 0x3C2, 1, 0x3A3),
     (0x3C3, 0x3CB, 1, 0x3A3), (0x3CC, 0x3CC, 1, 0x38C), (0x3CD, 0x3CE, 1, 0x38E),
     (0x3D0, 0x3D0, 1, 0x392), (0x3D1, 0x3D1, 1, 0x398), (0x3D5, 0x3D5, 1, 0x3A6),
     (0x3D6, 0x3D6, 1, 0x3A0), (0x3D7, 0x3D7, 1, 0x3CF), (0x3D9, 0x3EF, 2, 0x3D8),
     (0x3F0, 0x3F0, 1, 0x39A), (0x3F1, 0x3F1, 1, 0x3A1), (0x3F2, 0x3F2, 1, 0x3F9),
     (0x3F3, 0x3F3, 1, 0x37F), (0x3F5, 0x3F5, 1, 0x395), (0x3F8, 0x3F8, 1, 0x3F7),
     (0x3FB, 0x3FB, 1, 0x3FA), (0x430, 0x44F, 1, 0x410), (0x450, 0x45F, 1, 0x400),
     (0x461, 0x481, 2, 0x460), (0x48B, 0x4BF, 2, 0x48A), (0x4C2, 0x4CE, 2, 0x4C1),
     (0x4CF, 0x4CF, 1, 0x4C0), (0x4D1, 0x52F, 2, 0x4D0), (0x561, 0x586, 1, 0x531),
     (0x10D0, 0x10FA, 1, 0x1C90), (0x10FD, 0x10FF, 1, 0x1CBD), (0x13F8, 0x13FD, 1, 0x13F0),
     (0x1C80, 0x1C80, 1, 0x412), (0x1C81, 0x1C81, 1, 0x414), (0x1C82, 0x1C82, 1, 0x41E),
     (0x1C83, 0x1C84, 1, 0x421), (0x1C85, 0x1C85, 1, 0x422), (0x1C86, 0x1C86, 1, 0x42A),
     (0x1C87, 0x1C87, 1, 0x462), (0x1C88, 0x1C88, 1, 0xA64A), (0x1D79, 0x1D79, 1, 0xA77D),
     (0x1D7D, 0x1D7D, 1, 0x2C63), (0x1D8E, 0x1D8E, 1, 0xA7C6), (0x1E01, 0x1E95, 2, 0x1E00),
     (0x1E9B, 0x1E9B, 1, 0x1E60), (0x1EA1, 0x1EFF, 2, 0x1EA0), (0x1F00, 0x1F07, 1, 0x1F08),
     (0x1F10, 0x1F15, 1, 0x1F18), (0x1F20, 0x1F27, 1, 0x1F28), (0x1F30, 0x1F37, 1, 0x1F38),
     (0x1F40, 0x1F45, 1, 0x1F48), (0x1F51, 0x1F57, 2, 0x1F59), (0x1F60, 0x1F67, 1, 0x1F68),
     (0x1F70, 0x1F71, 1, 0x1FBA), (0x1F72, 0x1F75, 1, 0x1FC8), (0x1F76, 0x1F77, 1, 0x1FDA),
     (0x1F78, 0x1F79, 1, 0x1FF8), (0x1F7A, 0x1F7B, 1, 0x1FEA), (0x1F7C, 0x1F7D, 1, 0x1FFA),
     (0x1FB0, 0x1FB1, 1, 0x1FB8), (0x1FBE, 0x1FBE, 1, 0x399), (0x1FD0, 0x1FD1, 1, 0x1FD8),
     (0x1FE0, 0x1FE1, 1, 0x1FE8), (0x1FE5, 0x1FE5, 1, 0x1FEC), (0x214E, 0x214E, 1, 0x2132),
     (0x2170, 0x217F, 1, 0x2160), (0x2184, 0x2184, 1, 0x2183), (0x24D0, 0x24E9, 1, 0x24B6),
     (0x2C30, 0x2C5F, 1, 0x2C00), (0x2C61, 0x2C61, 1, 0x2C60), (0x2C65, 0x2C65, 1, 0x23A),
     (0x2C66, 0x2C66, 1, 0x23E), (0x2C68, 0x2C6C, 2, 0x2C67), (0x2C73, 0x2C73, 1, 0x2C72),
     (0x2C76, 0x2C76, 1, 0x2C75), (0x2C81, 0x2CE3, 2, 0x2C80), (0x2CEC, 0x2CEE, 2, 0x2CEB),
     (0x2CF3, 0x2CF3, 1, 0x2CF2), (0x2D00, 0x2D25, 1, 0x10A0), (0x2D27, 0x2D27, 1, 0x10C7),
     (0x2D2D, 0x2D2D, 1, 0x10CD), (0xA641, 0xA66D, 2, 0xA640), (0xA681, 0xA69B, 2, 0xA680),
     (0xA723, 0xA72F, 2, 0xA722), (0xA733, 0xA76F, 2, 0xA732), (0xA77A, 0xA77C, 2, 0xA779),
     (0xA77F, 0xA787, 2, 0xA77E), (0xA78C, 0xA78C, 1, 0xA78B), (0xA791, 0xA793, 2, 0xA790),
     (0xA794, 0xA794, 1, 0xA7C4), (0xA797, 0xA7A9, 2, 0xA796), (0xA7B5, 0xA7C3, 2, 0xA7B4),
     (0xA7C8, 0xA7CA, 2, 0xA7C7), (0xA7D1, 0xA7D1, 1, 0xA7D0), (0xA7D7, 0xA7D9, 2, 0xA7D6),
     (0xA7F6, 0xA7F6, 1, 0xA7F5), (0xAB53, 0xAB53, 1, 0xA7B3), (0xAB70, 0xABBF, 1, 0x13A0),
     (0xFF41, 0xFF5A, 1, 0xFF21), (0x10428, 0x1044F, 1, 0x10400), (0x104D8, 0x104FB, 1, 0x104B0),
     (0x10597, 0x105BB, 2, 0x10570), (0x10598, 0x105A0, 2, 0x10571), (0x105A4, 0x105B0, 2, 0x1057D),
     (0x105B4, 0x105B8, 2, 0x1058D), (0x105BC, 0x105BC, 1, 0x10595), (0x10CC0, 0x10CF2, 1, 0x10C80),
     (0x118C0, 0x118DF, 1, 0x118A0), (0x16E60, 0x16E7F, 1, 0x16E40), (0x1E922, 0x1E943, 1, 0x1E900)
    ]"

definition upper_special :: "(int \<times> int list) list" where
  "upper_special =
    [
     (0xDF, [0x53, 0x53]), (0x149, [0x2BC, 0x4E]),
     (0x1F0, [0x4A, 0x30C]), (0x390, [0x399, 0x308, 0x301]),
     (0x3B0, [0x3A5, 0x308, 0x301]), (0x587, [0x535, 0x552]),
     (0x1E96, [0x48, 0x331]), (0x1E97, [0x54, 0x308]),
     (0x1E98, [0x57, 0x30A]), (0x1E99, [0x59, 0x30A]),
     (0x1E9A, [0x41, 0x2BE]), (0x1F50, [0x3A5, 0x313]),
     (0x1F52, [0x3A5, 0x313, 0x300]), (0x1F54, [0x3A5, 0x313, 0x301]),
     (0x1F56, [0x3A5, 0x313, 0x342]), (0x1F80, [0x1F08, 0x399]),
     (0x1F81, [0x1F09, 0x399]), (0x1F82, [0x1F0A, 0x399]),
     (0x1F83, [0x1F0B, 0x399]), (0x1F84, [0x1F0C, 0x399]),
     (0x1F85, [0x1F0D, 0x399]), (0x1F86, [0x1F0E, 0x399]),
     (0x1F87, [0x1F0F, 0x399]), (0x1F88, [0x1F08, 0x399]),
     (0x1F89, [0x1F09, 0x399]), (0x1F8A, [0x1F0A, 0x399]),
     (0x1F8B, [0x1F0B, 0x399]), (0x1F8C, [0x1F0C, 0x399]),
     (0x1F8D, [0x1F0D, 0x399]), (0x1F8E, [0x1F0E, 0x399]),
     (0x1F8F, [0x1F0F, 0x399]), (0x1F90, [0x1F28, 0x399]),
     (0x1F91, [0x1F29, 0x399]), (0x1F92, [0x1F2A, 0x399]),
     (0x1F93, [0x1F2B, 0x399]), (0x1F94, [0x1F2C, 0x399]),
     (0x1F95, [0x1F2D, 0x399]), (0x1F96, [0x1F2E, 0x399]),
     (0x1F97, [0x1F2F, 0x399]), (0x1F98, [0x1F28, 0x399]),
     (0x1F99, [0x1F29, 0x399]), (0x1F9A, [0x1F2A, 0x399]),
     (0x1F9B, [0x1F2B, 0x399]), (0x1F9C, [0x1F2C, 0x399]),
     (0x1F9D, [0x1F2D, 0x399]), (0x1F9E, [0x1F2E, 0x399]),
     (0x1F9F, [0x1F2F, 0x399]), (0x1FA0, [0x1F68, 0x399]),
     (0x1FA1, [0x1F69, 0x399]), (0x1FA2, [0x1F6A, 0x399]),
     (0x1FA3, [0x1F6B, 0x399]), (0x1FA4, [0x1F6C, 0x399]),
     (0x1FA5, [0x1F6D, 0x399]), (0x1FA6, [0x1F6E, 0x399]),
     (0x1FA7, [0x1F6F, 0x399]), (0x1FA8, [0x1F68, 0x399]),
     (0x1FA9, [0x1F69, 0x399]), (0x1FAA, [0x1F6A, 0x399]),
     (0x1FAB, [0x1F6B, 0x399]), (0x1FAC, [0x1F6C, 0x399]),
     (0x1FAD, [0x1F6D, 0x399]), (0x1FAE, [0x1F6E, 0x399]),
     (0x1FAF, [0x1F6F, 0x399]), (0x1FB2, [0x1FBA, 0x399]),
     (0x1FB3, [0x391, 0x399]), (0x1FB4, [0x386, 0x399]),
     (0x1FB6, [0x391, 0x342]), (0x1FB7, [0x391, 0x342, 0x399]),
     (0x1FBC, [0x391, 0x399]), (0x1FC2, [0x1FCA, 0x399]),
     (0x1FC3, [0x397, 0x399]), (0x1FC4, [0x389, 0x399]),
     (0x1FC6, [0x397, 0x342]), (0x1FC7, [0x397, 0x342, 0x399]),
     (0x1FCC, [0x397, 0x399]), (0x1FD2, [0x399, 0x308, 0x300]),
     (0x1FD3, [0x399, 0x308, 0x301]), (0x1FD6, [0x399, 0x342]),
     (0x1FD7, [0x399, 0x308, 0x342]), (0x1FE2, [0x3A5, 0x308, 0x300]),
     (0x1FE3, [0x3A5, 0x308, 0x301]), (0x1FE4, [0x3A1, 0x313]),
     (0x1FE6, [0x3A5, 0x342]), (0x1FE7, [0x3A5, 0x308, 0x342]),
     (0x1FF2, [0x1FFA, 0x399]), (0x1FF3, [0x3A9, 0x399]),
     (0x1FF4, [0x38F, 0x399]), (0x1FF6, [0x3A9, 0x342]),
     (0x1FF7, [0x3A9, 0x342, 0x399]), (0x1FFC, [0x3A9, 0x399]),
     (0xFB00, [0x46, 0x46]), (0xFB01, [0x46, 0x49]),
     (0xFB02, [0x46, 0x4C]), (0xFB03, [0x46, 0x46, 0x49]),
     (0xFB04, [0x46, 0x46, 0x4C]), (0xFB05, [0x53, 0x54]),
     (0xFB06, [0x53, 0x54]), (0xFB13, [0x544, 0x546]),
     (0xFB14, [0x544, 0x535]), (0xFB15, [0x544, 0x53B]),
     (0xFB16, [0x54E, 0x546]), (0xFB17, [0x544, 0x53D])
    ]"

definition upper_cp :: "int \<Rightarrow> int list" where
  "upper_cp c =
     (case map_of upper_special c of
        Some us \<Rightarrow> us
      | None \<Rightarrow>
          (case find (\<lambda>(a, b, st, to). a \<le> c \<and> c \<le> b \<and> (c - a) mod st = 0) upper_ranges of
             Some (a, b, st, to) \<Rightarrow> [to + (c - a)]
           | None \<Rightarrow> [c]))"

definition toUpperCase :: "jsstring \<Rightarrow> jsstring" where
  "toUpperCase s = concat (map code_units (concat (map upper_cp (code_points s))))"

text \<open>
  What it takes for a string to have an upper-case form written in ASCII, stated without
  the table.  \<open>ascii_upper\<close> lists the code units whose upper-case form is made of ASCII
  code units: an ASCII code unit (a small letter gives its capital, any other is kept), the
  sharp s (U+00DF, SS), the dotless i (U+0131, I), the long s (U+017F, S) and the seven
  ligatures U+FB00 to U+FB06 (FF, FI, FL, FFI, FFL, ST, ST).  \<open>spells s t\<close> holds when \<open>t\<close>
  is \<open>s\<close> with every code unit replaced by that form.
\<close>

definition ascii_upper :: "jschar \<Rightarrow> jsstring option" where
  "ascii_upper u =
     (if u < 0x80 then Some [if 0x61 \<le> u \<and> u \<le> 0x7A then u - 0x20 else u]
      else map_of [(0xDF, lit ''SS''), (0x131, lit ''I''), (0x17F, lit ''S''),
                   (0xFB00, lit ''FF''), (0xFB01, lit ''FI''), (0xFB02, lit ''FL''),
                   (0xFB03, lit ''FFI''), (0xFB04, lit ''FFL''), (0xFB05, lit ''ST''),
                   (0xFB06, lit ''ST'')] u)"

fun spells :: "jsstring \<Rightarrow> jsstring \<Rightarrow> bool" where
  "spells [] t = (t = [])"
| "spells (u # r) t =
     (case ascii_upper u of
        None \<Rightarrow> False
      | Some e \<Rightarrow> prefix e t \<and> spells r (drop (length e) t))"

text \<open>
  Facts read off the table: the code points with an entry, the entries with an ASCII
  result, and the bounds of the results.
\<close>

lemma special_keys:
  "list_all (\<lambda>(c, us). 128 \<le> c \<and> list_all (\<lambda>x. 0 \<le> x \<and> x < 0x110000) us) upper_special"
  by code_simp

lemma special_ascii:
  "list_all (\<lambda>(c, us). list_ex (\<lambda>x. 128 \<le> x) us
       \<or> c \<in> set [0xDF, 0xFB00, 0xFB01, 0xFB02, 0xFB03, 0xFB04, 0xFB05, 0xFB06]) upper_special"
  by code_simp

lemma ranges_ascii:
  "list_all (\<lambda>(a, b, st, to). 128 \<le> to
       \<or> (a, b, st, to) \<in> set [(0x61, 0x7A, 1, 0x41), (0x131, 0x131, 1, 0x49), (0x17F, 0x17F, 1, 0x53)])
     upper_ranges"
  by code_simp

lemma ranges_low:
  "list_all (\<lambda>(a, b, st, to). 128 \<le> a \<or> (a, b, st, to) = (0x61, 0x7A, 1, 0x41)) upper_ranges"
  by code_simp

lemma ranges_bound:
  "list_all (\<lambda>(a, b, st, to). 0 \<le> to \<and> to + (b - a) < 0x110000) upper_ranges"
  by code_simp

lemma az_range: "(0x61, 0x7A, 1, 0x41) \<in> set upper_ranges"
  by code_simp

lemma upper_cp_values:
  "upper_cp 0xDF = [0x53, 0x53]" "upper_cp 0x131 = [0x49]" "upper_cp 0x17F = [0x53]"
  "upper_cp 0xFB00 = [0x46, 0x46]" "upper_cp 0xFB01 = [0x46, 0x49]" "upper_cp 0xFB02 = [0x46, 0x4C]"
  "upper_cp 0xFB03 = [0x46, 0x46, 0x49]" "upper_cp 0xFB04 = [0x46, 0x46, 0x4C]"
  "upper_cp 0xFB05 = [0x53, 0x54]" "upper_cp 0xFB06 = [0x53, 0x54]"
  by code_simp+

lemma uint16: "0 \<le> uint (u::jschar)" "uint (u::jschar) < 65536"
  using uint_lt2p [of u] by simp_all

lemma uint_word16: "0 \<le> c \<Longrightarrow> c < 65536 \<Longrightarrow> uint (word_of_int c :: jschar) = c"
  by (simp add: uint_word_of_int take_bit_int_eq_self)

lemma code_points_bound: "x \<in> set (code_points s) \<Longrightarrow> 0 \<le> x \<and> x < 0x110000"
proof (induction s arbitrary: x rule: code_points.induct)
  case 1
  then show ?case by simp
next
  case (2 h)
  then show ?case using uint16 [of h] by simp
next
  case (3 h l r)
  show ?case
  proof (cases "0xD800 \<le> h \<and> h \<le> 0xDBFF \<and> 0xDC00 \<le> l \<and> l \<le> 0xDFFF")
    case True
    then have b: "55296 \<le> uint h" "uint h \<le> 56319" "56320 \<le> uint l" "uint l \<le> 57343"
      by (simp_all add: word_le_def)
    have "(uint h - 55296) * 1024 \<le> 1023 * 1024" using b by simp
    then have "0 \<le> 0x10000 + (uint h - 0xD800) * 0x400 + (uint l - 0xDC00)
        \<and> 0x10000 + (uint h - 0xD800) * 0x400 + (uint l - 0xDC00) < 0x110000"
      using b by simp
    then show ?thesis using True 3 by auto
  next
    case False
    then show ?thesis using 3 uint16 [of h] by auto
  qed
qed

lemma find_Some_sat: "find P xs = Some x \<Longrightarrow> x \<in> set xs \<and> P x"
  by (induction xs) (auto split: if_splits)

lemma upper_cp_cases:
  obtains (special) us where "(c, us) \<in> set upper_special" "upper_cp c = us"
  | (range) a b st to where "(a, b, st, to) \<in> set upper_ranges" "a \<le> c" "c \<le> b"
      "map_of upper_special c = None" "upper_cp c = [to + (c - a)]"
  | (same) "map_of upper_special c = None"
      "\<forall>r\<in>set upper_ranges. \<not> (case r of (a, b, st, to) \<Rightarrow> a \<le> c \<and> c \<le> b \<and> (c - a) mod st = 0)"
      "upper_cp c = [c]"
proof (cases "map_of upper_special c")
  case (Some us)
  then have "(c, us) \<in> set upper_special" by (rule map_of_SomeD)
  then show ?thesis using Some special by (simp add: upper_cp_def)
next
  case None
  show ?thesis
  proof (cases "find (\<lambda>(a, b, st, to). a \<le> c \<and> c \<le> b \<and> (c - a) mod st = 0) upper_ranges")
    case N: None
    then have "\<forall>r\<in>set upper_ranges. \<not> (case r of (a, b, st, to) \<Rightarrow> a \<le> c \<and> c \<le> b \<and> (c - a) mod st = 0)"
      by (metis (no_types, lifting) find_None_iff)
    then show ?thesis using None N same by (simp add: upper_cp_def)
  next
    case (Some r)
    obtain a b st to where r: "r = (a, b, st, to)" by (cases r) auto
    have "r \<in> set upper_ranges \<and> (case r of (a, b, st, to) \<Rightarrow> a \<le> c \<and> c \<le> b \<and> (c - a) mod st = 0)"
      using Some by (rule find_Some_sat)
    then have m: "(a, b, st, to) \<in> set upper_ranges" "a \<le> c" "c \<le> b"
      using r by simp_all
    have u: "upper_cp c = [to + (c - a)]" using None Some r by (simp add: upper_cp_def)
    show ?thesis by (rule range [OF m None u])
  qed
qed

lemma upper_cp_bound:
  assumes "0 \<le> c" "c < 0x110000" "x \<in> set (upper_cp c)"
  shows "0 \<le> x \<and> x < 0x110000"
proof (cases c rule: upper_cp_cases)
  case (special us)
  then show ?thesis using special_keys assms(3) by (auto simp add: list_all_iff)
next
  case (range a b st to)
  then have "0 \<le> to \<and> to + (b - a) < 0x110000" using ranges_bound by (auto simp add: list_all_iff)
  then show ?thesis using range assms by auto
next
  case same
  then show ?thesis using assms by simp
qed

lemma code_units_ascii:
  assumes "0 \<le> c" "c < 0x110000" "list_all (\<lambda>x. x < 0x80) (code_units c)"
  shows "c < 0x80 \<and> code_units c = [word_of_int c]"
proof (cases "c < 0x10000")
  case True
  then have "uint (word_of_int c :: jschar) = c" using assms(1) by (simp add: uint_word16)
  then show ?thesis using True assms(3) by (simp add: code_units_def word_less_def)
next
  case False
  define d where "d = (c - 0x10000) div 0x400"
  have d: "0 \<le> d" "d < 0x400" using False assms(2) by (simp_all add: d_def)
  then have "uint (word_of_int (0xD800 + d) :: jschar) = 0xD800 + d"
    using d by (intro uint_word16) simp_all
  then have "\<not> (word_of_int (0xD800 + d) :: jschar) < 0x80" using d by (simp add: word_less_def)
  then show ?thesis using False assms(3) by (simp add: code_units_def d_def)
qed

text \<open>
  The upper-case form of a code point is written in ASCII exactly when \<open>ascii_upper\<close> says
  so, and an upper-case form written in ASCII is reached exactly by the strings that spell it.
\<close>

lemma concat_singletons:
  "\<forall>x\<in>set xs. f x = [g x] \<Longrightarrow> concat (map f xs) = map g xs"
  by (induction xs) auto

lemma word16_less: "0 \<le> c \<Longrightarrow> c < 65536 \<Longrightarrow> (word_of_int c :: jschar) < 0x80 \<longleftrightarrow> c < 0x80"
  by (simp add: word_less_def uint_word16)

lemma word16_le:
  "0 \<le> c \<Longrightarrow> c < 65536 \<Longrightarrow>
   (0x61 \<le> (word_of_int c :: jschar) \<and> (word_of_int c :: jschar) \<le> 0x7A) \<longleftrightarrow> (0x61 \<le> c \<and> c \<le> 0x7A)"
  by (simp add: word_le_def uint_word16)

lemma upper_units_ascii:
  assumes "0 \<le> c" "c < 0x110000"
    and "list_all (\<lambda>x. x < 0x80) (concat (map code_units (upper_cp c)))"
  shows "c < 0x10000
       \<and> ascii_upper (word_of_int c) = Some (concat (map code_units (upper_cp c)))"
proof -
  have each: "x < 0x80 \<and> code_units x = [word_of_int x]" if "x \<in> set (upper_cp c)" for x
  proof -
    have "0 \<le> x \<and> x < 0x110000" using upper_cp_bound [OF assms(1,2) that] .
    moreover have "list_all (\<lambda>x. x < 0x80) (code_units x)"
      using assms(3) that by (auto simp add: list_all_iff)
    ultimately show ?thesis using code_units_ascii by blast
  qed
  then have cu: "concat (map code_units (upper_cp c)) = map word_of_int (upper_cp c)"
    by (intro concat_singletons) simp
  show ?thesis
  proof (cases c rule: upper_cp_cases)
    case (special us)
    have "\<not> list_ex (\<lambda>x. 128 \<le> x) us"
      using each special(2) by (fastforce simp add: list_ex_iff)
    then have "c \<in> set [0xDF, 0xFB00, 0xFB01, 0xFB02, 0xFB03, 0xFB04, 0xFB05, 0xFB06]"
      using special_ascii special(1) by (auto simp add: list_all_iff)
    then consider "c = 0xDF" | "c = 0xFB00" | "c = 0xFB01" | "c = 0xFB02" | "c = 0xFB03"
      | "c = 0xFB04" | "c = 0xFB05" | "c = 0xFB06" by auto
    then show ?thesis
      by cases (simp_all add: upper_cp_values ascii_upper_def lit_def code_units_def)
  next
    case (range a b st to)
    have "to + (c - a) < 0x80" using each range(5) by simp
    then have "\<not> 128 \<le> to" using range(2) by simp
    then have "(a, b, st, to) \<in> set [(0x61, 0x7A, 1, 0x41), (0x131, 0x131, 1, 0x49), (0x17F, 0x17F, 1, 0x53)]"
      using ranges_ascii range(1) by (auto simp add: list_all_iff)
    then consider "a = 0x61 \<and> b = 0x7A \<and> to = 0x41" | "a = 0x131 \<and> b = 0x131 \<and> to = 0x49"
      | "a = 0x17F \<and> b = 0x17F \<and> to = 0x53" by auto
    then show ?thesis
    proof cases
      case 1
      then have c: "0x61 \<le> c" "c \<le> 0x7A" using range(2,3) by simp_all
      then have w: "(word_of_int c :: jschar) < 0x80"
        "0x61 \<le> (word_of_int c :: jschar) \<and> (word_of_int c :: jschar) \<le> 0x7A"
        using word16_less [of c] word16_le [of c] by simp_all
      have "upper_cp c = [c - 0x20]" using range(5) 1 by simp
      then have "concat (map code_units (upper_cp c)) = [word_of_int c - 0x20]"
        using cu by simp
      then show ?thesis using w c by (simp add: ascii_upper_def)
    next
      case 2
      then have "c = 0x131" using range(2,3) by simp
      then show ?thesis by (simp add: upper_cp_values ascii_upper_def lit_def code_units_def)
    next
      case 3
      then have "c = 0x17F" using range(2,3) by simp
      then show ?thesis by (simp add: upper_cp_values ascii_upper_def lit_def code_units_def)
    qed
  next
    case same
    then have c: "c < 0x80" using each by simp
    have "\<not> (0x61 \<le> c \<and> c \<le> 0x7A)"
    proof
      assume a: "0x61 \<le> c \<and> c \<le> 0x7A"
      from same(2) az_range
      have "\<not> (case (0x61::int, 0x7A::int, 1::int, 0x41::int) of
                 (a, b, st, to) \<Rightarrow> a \<le> c \<and> c \<le> b \<and> (c - a) mod st = 0)"
        by (rule bspec)
      then show False using a by simp
    qed
    then have "\<not> (0x61 \<le> (word_of_int c :: jschar) \<and> (word_of_int c :: jschar) \<le> 0x7A)"
      using word16_le [of c] assms(1) c by simp
    moreover have "(word_of_int c :: jschar) < 0x80" using word16_less [of c] assms(1) c by simp
    ultimately show ?thesis using same(3) c cu by (simp add: ascii_upper_def)
  qed
qed

lemma ascii_upper_units:
  assumes "ascii_upper u = Some e"
  shows "concat (map code_units (upper_cp (uint u))) = e \<and> list_all (\<lambda>x. x < 0x80) e
       \<and> \<not> (0xD800 \<le> u \<and> u \<le> 0xDBFF)"
proof (cases "u < 0x80")
  case True
  define c where "c = uint u"
  have c: "0 \<le> c" "c < 0x80" using True by (simp_all add: c_def word_less_def)
  have uc: "word_of_int c = u" by (simp add: c_def)
  have az: "(0x61 \<le> u \<and> u \<le> 0x7A) \<longleftrightarrow> (0x61 \<le> c \<and> c \<le> 0x7A)"
    by (simp add: c_def word_le_def)
  have lt: "\<not> (0xD800 \<le> u \<and> u \<le> 0xDBFF)" using True by (simp add: word_less_def word_le_def)
  have "concat (map code_units (upper_cp c)) = e \<and> list_all (\<lambda>x. x < 0x80) e"
  proof (cases c rule: upper_cp_cases)
    case (special us)
    then have "128 \<le> c" using special_keys by (auto simp add: list_all_iff)
    then show ?thesis using c by simp
  next
    case (range a b st to)
    have "\<not> 128 \<le> a" using range(2) c by simp
    then have r: "a = 0x61 \<and> b = 0x7A \<and> to = 0x41"
      using ranges_low range(1) by (auto simp add: list_all_iff)
    then have cc: "0x61 \<le> c" "c \<le> 0x7A" using range(2,3) by simp_all
    have "upper_cp c = [c - 0x20]" using range(5) r by simp
    then have "concat (map code_units (upper_cp c)) = [u - 0x20]"
      using cc uc by (simp add: code_units_def)
    moreover have "e = [u - 0x20]" using assms True az cc by (simp add: ascii_upper_def)
    moreover have "uint (u - 0x20) = c - 0x20"
      using cc uint_word16 [of "c - 0x20"] uc by simp
    then have "u - 0x20 < 0x80" using cc by (simp add: word_less_def)
    ultimately show ?thesis by simp
  next
    case same
    have "\<not> (0x61 \<le> c \<and> c \<le> 0x7A)"
    proof
      assume a: "0x61 \<le> c \<and> c \<le> 0x7A"
      from same(2) az_range
      have "\<not> (case (0x61::int, 0x7A::int, 1::int, 0x41::int) of
                 (a, b, st, to) \<Rightarrow> a \<le> c \<and> c \<le> b \<and> (c - a) mod st = 0)"
        by (rule bspec)
      then show False using a by simp
    qed
    then have "e = [u]" using assms True az by (auto simp add: ascii_upper_def)
    moreover have "concat (map code_units (upper_cp c)) = [u]"
      using same(3) c uc by (simp add: code_units_def)
    ultimately show ?thesis using True by simp
  qed
  then show ?thesis using lt by (simp add: c_def)
next
  case False
  then have "map_of [(0xDF, lit ''SS''), (0x131, lit ''I''), (0x17F, lit ''S''),
                   (0xFB00, lit ''FF''), (0xFB01, lit ''FI''), (0xFB02, lit ''FL''),
                   (0xFB03, lit ''FFI''), (0xFB04, lit ''FFL''), (0xFB05, lit ''ST''),
                   (0xFB06, lit ''ST'')] u = Some e"
    using assms by (simp add: ascii_upper_def)
  then consider "u = 0xDF \<and> e = lit ''SS''" | "u = 0x131 \<and> e = lit ''I''"
    | "u = 0x17F \<and> e = lit ''S''" | "u = 0xFB00 \<and> e = lit ''FF''"
    | "u = 0xFB01 \<and> e = lit ''FI''" | "u = 0xFB02 \<and> e = lit ''FL''"
    | "u = 0xFB03 \<and> e = lit ''FFI''" | "u = 0xFB04 \<and> e = lit ''FFL''"
    | "u = 0xFB05 \<and> e = lit ''ST''" | "u = 0xFB06 \<and> e = lit ''ST''"
    by (auto split: if_splits)
  then show ?thesis
    by cases (simp_all add: upper_cp_values code_units_def lit_def)
qed

lemma toUpperCase_Nil: "toUpperCase [] = []"
  by (simp add: toUpperCase_def)

lemma toUpperCase_single:
  assumes "\<not> (0xD800 \<le> u \<and> u \<le> 0xDBFF)"
  shows "toUpperCase (u # r) = concat (map code_units (upper_cp (uint u))) @ toUpperCase r"
  using assms by (cases r) (auto simp add: toUpperCase_def)

lemma toUpperCase_Cons_cases:
  obtains (single) "toUpperCase (u # r) = concat (map code_units (upper_cp (uint u))) @ toUpperCase r"
  | (pair) c l r' where "r = l # r'" "0x10000 \<le> c" "c < 0x110000"
      "toUpperCase (u # r) = concat (map code_units (upper_cp c)) @ toUpperCase r'"
proof (cases r)
  case Nil
  then show ?thesis using single by (simp add: toUpperCase_def)
next
  case (Cons l r')
  show ?thesis
  proof (cases "0xD800 \<le> u \<and> u \<le> 0xDBFF \<and> 0xDC00 \<le> l \<and> l \<le> 0xDFFF")
    case True
    define c where "c = 0x10000 + (uint u - 0xD800) * 0x400 + (uint l - 0xDC00)"
    have "c \<in> set (code_points (u # l # r'))" using True by (simp add: c_def)
    then have b: "c < 0x110000" using code_points_bound by blast
    have b0: "0x10000 \<le> c" using True by (simp add: c_def word_le_def)
    have "toUpperCase (u # r) = concat (map code_units (upper_cp c)) @ toUpperCase r'"
      using True Cons by (simp add: toUpperCase_def c_def)
    then show ?thesis using pair Cons b b0 by blast
  next
    case False
    then have "toUpperCase (u # r) = concat (map code_units (upper_cp (uint u))) @ toUpperCase r"
      using Cons by (auto simp add: toUpperCase_def)
    then show ?thesis by (rule single)
  qed
qed

lemma toUpperCase_ascii:
  "list_all (\<lambda>x. x < 0x80) t \<Longrightarrow> toUpperCase s = t \<longleftrightarrow> spells s t"
proof (induction s arbitrary: t rule: length_induct)
  case (1 s)
  show ?case
  proof (cases s)
    case Nil
    then show ?thesis by (auto simp add: toUpperCase_Nil)
  next
    case (Cons u r)
    have IH: "list_all (\<lambda>x. x < 0x80) t' \<Longrightarrow> toUpperCase r' = t' \<longleftrightarrow> spells r' t'"
      if "length r' < length s" for r' t'
      using "1.IH" that by blast
    show ?thesis
    proof
      assume up: "toUpperCase s = t"
      show "spells s t"
      proof (cases u r rule: toUpperCase_Cons_cases)
        case single
        define e where "e = concat (map code_units (upper_cp (uint u)))"
        have t: "t = e @ toUpperCase r" using up single Cons by (simp add: e_def)
        then have "list_all (\<lambda>x. x < 0x80) e" using "1.prems" by simp
        then have au: "ascii_upper (word_of_int (uint u)) = Some e"
          using upper_units_ascii [of "uint u"] uint16 [of u] by (simp add: e_def)
        have rest: "list_all (\<lambda>x. x < 0x80) (toUpperCase r)" using t "1.prems" by simp
        have "spells r (toUpperCase r)" using IH [of r "toUpperCase r"] rest Cons by simp
        then show ?thesis using au t Cons by simp
      next
        case (pair c l r')
        define e where "e = concat (map code_units (upper_cp c))"
        have t: "t = e @ toUpperCase r'" using up pair Cons by (simp add: e_def)
        then have "list_all (\<lambda>x. x < 0x80) e" using "1.prems" by simp
        then have "c < 0x10000" using upper_units_ascii [of c] pair(2,3) by (simp add: e_def)
        then show ?thesis using pair(2) by simp
      qed
    next
      assume sp: "spells s t"
      then obtain e where au: "ascii_upper u = Some e" and pre: "prefix e t"
        and rest: "spells r (drop (length e) t)"
        using Cons by (auto split: option.splits)
      have e: "concat (map code_units (upper_cp (uint u))) = e"
        "\<not> (0xD800 \<le> u \<and> u \<le> 0xDBFF)"
        using ascii_upper_units [OF au] by simp_all
      from e(2) have d: "toUpperCase (u # r) = e @ toUpperCase r"
        using toUpperCase_single e(1) by simp
      have "list_all (\<lambda>x. x < 0x80) (drop (length e) t)"
        using "1.prems" by (auto simp add: list_all_iff dest: in_set_dropD)
      then have "toUpperCase r = drop (length e) t"
        using IH [of r "drop (length e) t"] rest Cons by simp
      moreover have "t = e @ drop (length e) t" using pre by (auto simp add: prefix_def)
      ultimately show "toUpperCase s = t" using d Cons by simp
    qed
  qed
qed


subsection \<open>Values\<close>

text \<open>
  The values a field of a parsed JSON body can hold.  \<open>jsval\<close> are the primitive ones:
  absent (\<^verbatim>\<open>undefined\<close>), \<^verbatim>\<open>null\<close>, a boolean, a number or a string; \<open>jsany\<close> adds
  arrays and objects (an object is the list of its own properties, in order).

  A number is \<^verbatim>\<open>NaN\<close>, an infinity or a zero (with its sign: \<open>True\<close> is negative), or a
  finite number other than zero, given by its sign and the two integers that
  \<^verbatim>\<open>Number::toString\<close> prints it from: the decimal digits \<open>s\<close>, as few as determine the
  number, and the exponent \<open>n\<close>, the value being \<open>s \<times> 10\<^sup>n\<^sup>-\<^sup>k\<close> for \<open>k\<close> digits.
  \<open>finite_String\<close> are the steps of \<^verbatim>\<open>Number::toString\<close> from there: an integer with up to
  21 digits, a decimal fraction, or the exponent form.
\<close>

datatype jsnum = NaN | Infinite bool | Zero bool | Finite bool nat int

datatype jsval = JUndefined | JNull | JBool bool | JNum jsnum | JStr jsstring

datatype jsany = Prim jsval | JArr "jsany list" | JObj "(jsstring \<times> jsany) list"

definition finite_String :: "nat \<Rightarrow> int \<Rightarrow> jsstring" where
  "finite_String s n =
     (let ds = show_nat s; k = int (length ds) in
      if k \<le> n \<and> n \<le> 21 then ds @ replicate (nat (n - k)) 0x30
      else if 0 < n \<and> n \<le> 21 then take (nat n) ds @ lit ''.'' @ drop (nat n) ds
      else if - 6 < n \<and> n \<le> 0 then lit ''0.'' @ replicate (nat (- n)) 0x30 @ ds
      else let ex = (if n - 1 < 0 then lit ''-'' else lit ''+'') @ show_nat (nat \<bar>n - 1\<bar>)
           in if k = 1 then ds @ lit ''e'' @ ex
              else take 1 ds @ lit ''.'' @ drop 1 ds @ lit ''e'' @ ex)"

fun num_String :: "jsnum \<Rightarrow> jsstring" where
  "num_String NaN = lit ''NaN''"
| "num_String (Infinite neg) = (if neg then lit ''-Infinity'' else lit ''Infinity'')"
| "num_String (Zero neg) = lit ''0''"
| "num_String (Finite neg s n) = (if neg then lit ''-'' else []) @ finite_String s n"

text \<open>
  \<open>truthy\<close> is the test of \<^verbatim>\<open>!star\<close>: the absent value, \<^verbatim>\<open>null\<close>, \<^verbatim>\<open>false\<close>,
  \<^verbatim>\<open>NaN\<close>, the zeros and the empty string are falsy, every other value is truthy.
\<close>

fun prim_truthy :: "jsval \<Rightarrow> bool" where
  "prim_truthy JUndefined = False"
| "prim_truthy JNull = False"
| "prim_truthy (JBool b) = b"
| "prim_truthy (JNum x) = (case x of NaN \<Rightarrow> False | Zero neg \<Rightarrow> False | _ \<Rightarrow> True)"
| "prim_truthy (JStr s) = (s \<noteq> [])"

fun truthy :: "jsany \<Rightarrow> bool" where
  "truthy (Prim v) = prim_truthy v"
| "truthy (JArr xs) = True"
| "truthy (JObj kvs) = True"

text \<open>
  \<open>js_String\<close> is \<^verbatim>\<open>String(star)\<close>.  For a primitive value it cannot fail
  (\<open>prim_String\<close>).  For an array it is \<^verbatim>\<open>Array.prototype.join\<close> with a comma: the
  elements are converted from left to right, \<^verbatim>\<open>undefined\<close> and \<^verbatim>\<open>null\<close> giving the
  empty string, and the first conversion that throws ends the call.  For an object the
  conversion looks up \<^verbatim>\<open>toString\<close>: an object without an own property of that name
  inherits \<^verbatim>\<open>Object.prototype.toString\<close> and gives \<^verbatim>\<open>[object Object]\<close>; an own property
  \<^verbatim>\<open>toString\<close> of a parsed body is never a function, so the conversion goes on to
  \<^verbatim>\<open>valueOf\<close>, which is not a function either or returns the object itself, and throws
  a \<^verbatim>\<open>TypeError\<close>.
\<close>

fun prim_String :: "jsval \<Rightarrow> jsstring" where
  "prim_String JUndefined = lit ''undefined''"
| "prim_String JNull = lit ''null''"
| "prim_String (JBool b) = (if b then lit ''true'' else lit ''false'')"
| "prim_String (JNum x) = num_String x"
| "prim_String (JStr s) = s"

fun js_String :: "jsany \<Rightarrow> jserror + jsstring"
  and js_join :: "jsany list \<Rightarrow> jserror + jsstring" where
  "js_String (Prim v) = Inr (prim_String v)"
| "js_String (JArr xs) = js_join xs"
| "js_String (JObj kvs) =
     (if lit ''toString'' \<in> set (map fst kvs)
      then Inl (Thrown TypeError (lit ''Cannot convert object to primitive value''))
      else Inr (lit ''[object Object]''))"
| "js_join [] = Inr []"
| "js_join (x # xs) =
     (case (if x = Prim JUndefined \<or> x = Prim JNull then Inr [] else js_String x) of
        Inl e \<Rightarrow> Inl e
      | Inr s \<Rightarrow>
          if xs = [] then Inr s
          else (case js_join xs of Inl e \<Rightarrow> Inl e | Inr t \<Rightarrow> Inr (s @ lit '','' @ t)))"

section \<open>Star ratings\<close>

text \<open>
  \<^verbatim>\<open>
  function starRatingToInt(star) {
    if (!star) return null;
    const s = String(star).toUpperCase();
    const map = { ONE: 1, TWO: 2, THREE: 3, FOUR: 4, FIVE: 5 };
    return map[s] ?? null;
  }
  \<close>
  The object literal is an association list; \<^verbatim>\<open>map[s] ?? null\<close> is the lookup, with
  \<open>None\<close> for \<^verbatim>\<open>null\<close>.  (No property of \<^verbatim>\<open>Object.prototype\<close> has a name that is its
  own upper-case form, so the lookup never leaves the five own keys.)  The result is the
  error thrown by \<^verbatim>\<open>String(star)\<close>, or the value returned.
\<close>

definition rating_map :: "(jsstring \<times> int) list" where
  "rating_map = [(lit ''ONE'', 1), (lit ''TWO'', 2), (lit ''THREE'', 3),
                 (lit ''FOUR'', 4), (lit ''FIVE'', 5)]"

definition starRatingToInt :: "jsany \<Rightarrow> jserror + int option" where
  "starRatingToInt star =
     (if \<not> truthy star then Inr None
      else case js_String star of
             Inl e \<Rightarrow> Inl e
           | Inr str \<Rightarrow> let s = toUpperCase str in Inr (map_of rating_map s))"

text \<open>
  The values for which the conversion to a string throws, stated on the value alone: an
  object with an own property \<^verbatim>\<open>toString\<close>, or an array that holds such a value.
\<close>

fun throws :: "jsany \<Rightarrow> bool" where
  "throws (Prim v) = False"
| "throws (JArr xs) = list_ex throws xs"
| "throws (JObj kvs) = (lit ''toString'' \<in> set (map fst kvs))"

lemma js_String_throws:
  "case js_String x of
     Inl e \<Rightarrow> throws x \<and> e = Thrown TypeError (lit ''Cannot convert object to primitive value'')
   | Inr s \<Rightarrow> \<not> throws x"
  "case js_join xs of
     Inl e \<Rightarrow> list_ex throws xs \<and> e = Thrown TypeError (lit ''Cannot convert object to primitive value'')
   | Inr s \<Rightarrow> \<not> list_ex throws xs"
proof (induction x and xs rule: js_String_js_join.induct)
  case (1 v)
  then show ?case by simp
next
  case (2 xs)
  then show ?case by (simp split: sum.splits)
next
  case (3 kvs)
  then show ?case by simp
next
  case 4
  then show ?case by simp
next
  case (5 x xs)
  show ?case
  proof (cases "x = Prim JUndefined \<or> x = Prim JNull")
    case True
    then have nx: "\<not> throws x" by auto
    show ?thesis
    proof (cases "xs = []")
      case True
      then show ?thesis using \<open>x = Prim JUndefined \<or> x = Prim JNull\<close> nx by simp
    next
      case False
      then show ?thesis using True nx 5(2) [of "[]"] by (simp split: sum.splits)
    qed
  next
    case False
    show ?thesis
    proof (cases "js_String x")
      case (Inl e)
      then show ?thesis using False 5(1) by simp
    next
      case (Inr s)
      then have nx: "\<not> throws x" using False 5(1) by simp
      show ?thesis
      proof (cases "xs = []")
        case True
        then show ?thesis using False Inr nx by simp
      next
        case F: False
        then show ?thesis using False Inr nx 5(2) [of s] by (simp split: sum.splits)
      qed
    qed
  qed
qed

lemma map_of_rating:
  "map_of rating_map x =
     (if x = lit ''ONE'' then Some 1 else if x = lit ''TWO'' then Some 2
      else if x = lit ''THREE'' then Some 3 else if x = lit ''FOUR'' then Some 4
      else if x = lit ''FIVE'' then Some 5 else None)"
  by (simp add: rating_map_def)

lemma ascii_names:
  "list_all (\<lambda>x. x < 0x80) (lit ''ONE'')" "list_all (\<lambda>x. x < 0x80) (lit ''TWO'')"
  "list_all (\<lambda>x. x < 0x80) (lit ''THREE'')" "list_all (\<lambda>x. x < 0x80) (lit ''FOUR'')"
  "list_all (\<lambda>x. x < 0x80) (lit ''FIVE'')"
  by (simp_all add: lit_def)

lemma falsy_no_name:
  "list_all (\<lambda>s. list_all (\<lambda>n. \<not> spells s n)
       [lit ''ONE'', lit ''TWO'', lit ''THREE'', lit ''FOUR'', lit ''FIVE''])
     [lit ''undefined'', lit ''null'', lit ''false'', lit ''NaN'', lit ''0'', []]"
  by code_simp

lemma falsy_String:
  "\<not> prim_truthy v \<Longrightarrow>
   prim_String v \<in> set [lit ''undefined'', lit ''null'', lit ''false'', lit ''NaN'', lit ''0'', []]"
  by (cases v) (auto split: jsnum.splits)

lemma starRatingToInt_chain:
  assumes "js_String star = Inr s"
  shows "starRatingToInt star =
     Inr (if spells s (lit ''ONE'') then Some 1
          else if spells s (lit ''TWO'') then Some 2
          else if spells s (lit ''THREE'') then Some 3
          else if spells s (lit ''FOUR'') then Some 4
          else if spells s (lit ''FIVE'') then Some 5
          else None)"
proof (cases "truthy star")
  case True
  then show ?thesis
    using assms
    by (simp add: starRatingToInt_def map_of_rating toUpperCase_ascii [OF ascii_names(1)]
        toUpperCase_ascii [OF ascii_names(2)] toUpperCase_ascii [OF ascii_names(3)]
        toUpperCase_ascii [OF ascii_names(4)] toUpperCase_ascii [OF ascii_names(5)])
next
  case False
  then obtain v where v: "star = Prim v" "\<not> prim_truthy v" by (cases star) auto
  then have "s \<in> set [lit ''undefined'', lit ''null'', lit ''false'', lit ''NaN'', lit ''0'', []]"
    using assms falsy_String [of v] by simp
  then have "list_all (\<lambda>n. \<not> spells s n)
       [lit ''ONE'', lit ''TWO'', lit ''THREE'', lit ''FOUR'', lit ''FIVE'']"
    using falsy_no_name unfolding list_all_iff by blast
  then show ?thesis using False by (simp add: starRatingToInt_def)
qed

lemma starRatingToInt_throws:
  assumes "throws star"
  shows "starRatingToInt star = Inl (Thrown TypeError (lit ''Cannot convert object to primitive value''))"
proof -
  have "truthy star" using assms by (cases star) auto
  moreover have "js_String star = Inl (Thrown TypeError (lit ''Cannot convert object to primitive value''))"
    using js_String_throws(1) [of star] assms by (simp split: sum.splits)
  ultimately show ?thesis by (simp add: starRatingToInt_def)
qed

lemma js_String_Inr: "\<not> throws star \<Longrightarrow> \<exists>s. js_String star = Inr s"
  using js_String_throws(1) [of star] by (simp split: sum.splits)

text \<open>
  C10, as amended.  \<open>starRatingToInt\<close> throws for exactly the values described by
  \<open>throws\<close>, and then a \<^verbatim>\<open>TypeError\<close>; in particular it never throws for a primitive
  value.  For every other value it returns 1..5 exactly when the string form of the value
  spells ONE, TWO, THREE, FOUR or FIVE (each letter in either case, the dotless i also
  standing for I and the ligature U+FB01 for FI), and \<^verbatim>\<open>null\<close> (\<open>None\<close>) otherwise, as
  for the absent value, \<^verbatim>\<open>null\<close> and the empty string.  No result lies outside 1..5.
\<close>

theorem starRatingToInt_enum:
  "(throws star \<longrightarrow>
      starRatingToInt star = Inl (Thrown TypeError (lit ''Cannot convert object to primitive value'')))
   \<and> (\<not> throws star \<longrightarrow>
        (\<exists>s. js_String star = Inr s
           \<and> starRatingToInt star =
               Inr (if spells s (lit ''ONE'') then Some 1
                    else if spells s (lit ''TWO'') then Some 2
                    else if spells s (lit ''THREE'') then Some 3
                    else if spells s (lit ''FOUR'') then Some 4
                    else if spells s (lit ''FIVE'') then Some 5
                    else None)))
   \<and> starRatingToInt (Prim v) =
         Inr (if spells (prim_String v) (lit ''ONE'') then Some 1
              else if spells (prim_String v) (lit ''TWO'') then Some 2
              else if spells (prim_String v) (lit ''THREE'') then Some 3
              else if spells (prim_String v) (lit ''FOUR'') then Some 4
              else if spells (prim_String v) (lit ''FIVE'') then Some 5
              else None)
   \<and> starRatingToInt (Prim JUndefined) = Inr None
   \<and> starRatingToInt (Prim JNull) = Inr None
   \<and> starRatingToInt (Prim (JStr [])) = Inr None
   \<and> (\<forall>k. starRatingToInt star = Inr (Some k) \<longrightarrow> 1 \<le> k \<and> k \<le> 5)"
proof -
  have a: "throws star \<longrightarrow>
      starRatingToInt star = Inl (Thrown TypeError (lit ''Cannot convert object to primitive value''))"
    using starRatingToInt_throws by blast
  have b: "\<not> throws star \<longrightarrow>
        (\<exists>s. js_String star = Inr s
           \<and> starRatingToInt star =
               Inr (if spells s (lit ''ONE'') then Some 1
                    else if spells s (lit ''TWO'') then Some 2
                    else if spells s (lit ''THREE'') then Some 3
                    else if spells s (lit ''FOUR'') then Some 4
                    else if spells s (lit ''FIVE'') then Some 5
                    else None))"
    using js_String_Inr starRatingToInt_chain by blast
  have c: "starRatingToInt (Prim v) =
         Inr (if spells (prim_String v) (lit ''ONE'') then Some 1
              else if spells (prim_String v) (lit ''TWO'') then Some 2
              else if spells (prim_String v) (lit ''THREE'') then Some 3
              else if spells (prim_String v) (lit ''FOUR'') then Some 4
              else if spells (prim_String v) (lit ''FIVE'') then Some 5
              else None)"
    by (rule starRatingToInt_chain) simp
  have d: "starRatingToInt (Prim JUndefined) = Inr None" "starRatingToInt (Prim JNull) = Inr None"
    "starRatingToInt (Prim (JStr [])) = Inr None"
    by (simp_all add: starRatingToInt_def)
  have e: "\<forall>k. starRatingToInt star = Inr (Some k) \<longrightarrow> 1 \<le> k \<and> k \<le> 5"
  proof (cases "throws star")
    case True
    then show ?thesis using a by simp
  next
    case False
    then obtain s where "js_String star = Inr s" using js_String_Inr by blast
    then show ?thesis by (simp add: starRatingToInt_chain)
  qed
  from a b c d e show ?thesis by blast
qed

text \<open>
  The mapper on a rating in mixed case, with a dotless i, with a ligature, on an unknown
  name, on \<^verbatim>\<open>true\<close>, on the number 5 and on an array holding an object with an own
  \<^verbatim>\<open>toString\<close>.
\<close>

theorem starRatingToInt_enum_witness:
  "starRatingToInt (Prim (JStr (lit ''Five''))) = Inr (Some 5)
   \<and> starRatingToInt (Prim (JStr (lit ''ONE''))) = Inr (Some 1)
   \<and> starRatingToInt (Prim (JStr [0x66, 0x131, 0x76, 0x65])) = Inr (Some 5)
   \<and> starRatingToInt (Prim (JStr [0xFB01, 0x76, 0x65])) = Inr (Some 5)
   \<and> starRatingToInt (Prim (JStr (lit ''STAR_RATING_UNSPECIFIED''))) = Inr None
   \<and> starRatingToInt (Prim (JBool True)) = Inr None
   \<and> starRatingToInt (Prim (JNum (Finite False 5 1))) = Inr None
   \<and> starRatingToInt (JArr [JObj [(lit ''toString'', Prim JNull)]])
       = Inl (Thrown TypeError (lit ''Cannot convert object to primitive value''))"
proof -
  have s1: "spells (lit ''Five'') (lit ''FIVE'')" by code_simp
  have n1: "list_all (\<lambda>n. \<not> spells (lit ''Five'') n) [lit ''ONE'', lit ''TWO'', lit ''THREE'', lit ''FOUR'']"
    by code_simp
  have s2: "spells (lit ''ONE'') (lit ''ONE'')" by code_simp
  have s3: "spells [0x66, 0x131, 0x76, 0x65] (lit ''FIVE'')" by code_simp
  have n3: "list_all (\<lambda>n. \<not> spells [0x66, 0x131, 0x76, 0x65] n) [lit ''ONE'', lit ''TWO'', lit ''THREE'', lit ''FOUR'']"
    by code_simp
  have s4: "spells [0xFB01, 0x76, 0x65] (lit ''FIVE'')" by code_simp
  have n4: "list_all (\<lambda>n. \<not> spells [0xFB01, 0x76, 0x65] n) [lit ''ONE'', lit ''TWO'', lit ''THREE'', lit ''FOUR'']"
    by code_simp
  have n5: "list_all (\<lambda>n. \<not> spells (lit ''STAR_RATING_UNSPECIFIED'') n)
      [lit ''ONE'', lit ''TWO'', lit ''THREE'', lit ''FOUR'', lit ''FIVE'']" by code_simp
  have n6: "list_all (\<lambda>n. \<not> spells (lit ''true'') n)
      [lit ''ONE'', lit ''TWO'', lit ''THREE'', lit ''FOUR'', lit ''FIVE'']" by code_simp
  have p7: "prim_String (JNum (Finite False 5 1)) = lit ''5''" by code_simp
  have n7: "list_all (\<lambda>n. \<not> spells (lit ''5'') n)
      [lit ''ONE'', lit ''TWO'', lit ''THREE'', lit ''FOUR'', lit ''FIVE'']" by code_simp
  have t8: "throws (JArr [JObj [(lit ''toString'', Prim JNull)]])" by simp
  have "starRatingToInt (Prim (JStr (lit ''Five''))) = Inr (Some 5)"
    using starRatingToInt_enum [of "Prim (JStr (lit ''Five''))" "JStr (lit ''Five'')"] s1 n1
    by simp
  moreover have "starRatingToInt (Prim (JStr (lit ''ONE''))) = Inr (Some 1)"
    using starRatingToInt_enum [of "Prim (JStr (lit ''ONE''))" "JStr (lit ''ONE'')"] s2
    by simp
  moreover have "starRatingToInt (Prim (JStr [0x66, 0x131, 0x76, 0x65])) = Inr (Some 5)"
    using starRatingToInt_enum [of "Prim (JStr [0x66, 0x131, 0x76, 0x65])" "JStr [0x66, 0x131, 0x76, 0x65]"]
      s3 n3 by simp
  moreover have "starRatingToInt (Prim (JStr [0xFB01, 0x76, 0x65])) = Inr (Some 5)"
    using starRatingToInt_enum [of "Prim (JStr [0xFB01, 0x76, 0x65])" "JStr [0xFB01, 0x76, 0x65]"]
      s4 n4 by simp
  moreover have "starRatingToInt (Prim (JStr (lit ''STAR_RATING_UNSPECIFIED''))) = Inr None"
    using starRatingToInt_enum [of "Prim (JStr (lit ''STAR_RATING_UNSPECIFIED''))"
        "JStr (lit ''STAR_RATING_UNSPECIFIED'')"] n5 by simp
  moreover have "starRatingToInt (Prim (JBool True)) = Inr None"
    using starRatingToInt_enum [of "Prim (JBool True)" "JBool True"] n6 by simp
  moreover have "starRatingToInt (Prim (JNum (Finite False 5 1))) = Inr None"
    using starRatingToInt_enum [of "Prim (JNum (Finite False 5 1))" "JNum (Finite False 5 1)"] n7
    by (simp add: p7 del: prim_String.simps)
  moreover have "starRatingToInt (JArr [JObj [(lit ''toString'', Prim JNull)]])
       = Inl (Thrown TypeError (lit ''Cannot convert object to primitive value''))"
    using starRatingToInt_enum [of "JArr [JObj [(lit ''toString'', Prim JNull)]]"] t8 by blast
  ultimately show ?thesis by blast
qed

text \<open>
  C10, as stated, fails: for the parsed body \<^verbatim>\<open>{"toString": "five"}\<close> the mapper throws.
\<close>

theorem starRatingToInt_throws_counterexample:
  "starRatingToInt (JObj [(lit ''toString'', Prim (JStr (lit ''five'')))])
     = Inl (Thrown TypeError (lit ''Cannot convert object to primitive value''))"
  by code_simp

section \<open>Batches for the webhook\<close>

text \<open>
  \<^verbatim>\<open>
  function chunkArray(arr, size) {
    if (size <= 0) return [arr];
    const out = [];
    for (let i = 0; i < arr.length; i += size) out.push(arr.slice(i, i + size));
    return out;
  }
  \<close>
  \<open>slice\<close> is \<^verbatim>\<open>Array.prototype.slice\<close> with both arguments given: a negative index
  counts from the end, both are clamped to the array.  The batch size is an integer
  (\<^verbatim>\<open>Number(process.env.MAKE_BATCH_SIZE || "200")\<close>; a size that is not an integer is
  outside the model).  The loop only runs under the guard \<^verbatim>\<open>size > 0\<close> of its caller;
  the test \<open>0 < sz\<close> in \<open>chunkArray_loop\<close> repeats that guard so that the recursion is
  total.
\<close>

definition slice :: "'a list \<Rightarrow> int \<Rightarrow> int \<Rightarrow> 'a list" where
  "slice xs start fin =
     (let len = int (length xs);
          k = (if start < 0 then max (len + start) 0 else min start len);
          final = (if fin < 0 then max (len + fin) 0 else min fin len)
      in take (nat (final - k)) (drop (nat k) xs))"

function chunkArray_loop :: "'a list \<Rightarrow> int \<Rightarrow> int \<Rightarrow> 'a list list \<Rightarrow> 'a list list" where
  "chunkArray_loop arr sz i out =
     (if 0 < sz \<and> i < int (length arr)
      then chunkArray_loop arr sz (i + sz) (out @ [slice arr i (i + sz)])
      else out)"
  by pat_completeness auto
termination
  by (relation "measure (\<lambda>(arr, sz, i, out). nat (int (length arr) - i))") auto

definition chunkArray :: "'a list \<Rightarrow> int \<Rightarrow> 'a list list" where
  "chunkArray arr sz = (if sz \<le> 0 then [arr] else chunkArray_loop arr sz 0 [])"

text \<open>
  The part of \<^verbatim>\<open>main\<close> that prepares the delivery: the chunks, with one empty chunk
  pushed when there is none, and one payload per chunk, handed to \<^verbatim>\<open>postToMake\<close> in
  this order.
  \<^verbatim>\<open>
  const chunks = chunkArray(items, ENV.MAKE_BATCH_SIZE);
  if (chunks.length === 0) chunks.push([]);
  for (let i = 0; i < chunks.length; i++) {
    const payload = { ...metaBase, batch_index: i + 1, batch_total: chunks.length,
                      count: chunks[i].length, data: chunks[i] };
    await postToMake(payload);
  }
  \<close>
\<close>

record 'a payload =
  count_total :: nat
  batch_index :: nat
  batch_total :: nat
  count :: nat
  data :: "'a list"

definition dispatch_chunks :: "'a list \<Rightarrow> int \<Rightarrow> 'a list list" where
  "dispatch_chunks items sz =
     (let chunks = chunkArray items sz
      in if length chunks = 0 then chunks @ [[]] else chunks)"

text \<open>
  The chunks as the specification words them: cut the list every \<open>n\<close> elements.  Used to
  describe what the loop returns.
\<close>

function chunks_of :: "nat \<Rightarrow> 'a list \<Rightarrow> 'a list list" where
  "chunks_of n xs = (if n = 0 \<or> xs = [] then [] else take n xs # chunks_of n (drop n xs))"
  by pat_completeness auto
termination
  by (relation "measure (\<lambda>(n, xs). length xs)") auto

declare chunkArray_loop.simps [simp del] chunks_of.simps [simp del]


definition make_payloads :: "'a list \<Rightarrow> int \<Rightarrow> 'a payload list" where
  "make_payloads items sz =
     (let chunks = dispatch_chunks items sz
      in map (\<lambda>i. \<lparr>count_total = length items, batch_index = i + 1,
                    batch_total = length chunks, count = length (chunks ! i),
                    data = chunks ! i\<rparr>) [0..<length chunks])"

lemma slice_nonneg:
  "0 \<le> i \<Longrightarrow> 0 \<le> j \<Longrightarrow> slice xs i (i + j) = take (nat j) (drop (nat i) xs)"
  by (auto simp add: slice_def Let_def min_def)

lemma chunkArray_loop_chunks:
  "0 < sz \<Longrightarrow> 0 \<le> i \<Longrightarrow>
   chunkArray_loop arr sz i out = out @ chunks_of (nat sz) (drop (nat i) arr)"
proof (induction arr sz i out rule: chunkArray_loop.induct)
  case (1 arr sz i out)
  show ?case
  proof (cases "i < int (length arr)")
    case True
    have d: "drop (nat i) arr \<noteq> []" using True 1 by simp
    have "chunkArray_loop arr sz i out =
            chunkArray_loop arr sz (i + sz) (out @ [slice arr i (i + sz)])"
      using True 1 by (subst chunkArray_loop.simps) simp
    also have "\<dots> = (out @ [slice arr i (i + sz)]) @ chunks_of (nat sz) (drop (nat (i + sz)) arr)"
      using 1 True by simp
    also have "slice arr i (i + sz) = take (nat sz) (drop (nat i) arr)"
      using 1 by (simp add: slice_nonneg)
    also have "drop (nat (i + sz)) arr = drop (nat sz) (drop (nat i) arr)"
      using 1 by (simp add: nat_add_distrib add.commute)
    finally have e: "chunkArray_loop arr sz i out =
        (out @ [take (nat sz) (drop (nat i) arr)]) @
        chunks_of (nat sz) (drop (nat sz) (drop (nat i) arr))" .
    have "chunks_of (nat sz) (drop (nat i) arr) =
        take (nat sz) (drop (nat i) arr) # chunks_of (nat sz) (drop (nat sz) (drop (nat i) arr))"
      using d 1(2) by (subst chunks_of.simps) simp
    with e show ?thesis by simp
  next
    case False
    then have "drop (nat i) arr = []" using 1 by simp
    then show ?thesis using False
      by (subst chunkArray_loop.simps, subst chunks_of.simps) simp
  qed
qed

lemma concat_chunks_of: "0 < n \<Longrightarrow> concat (chunks_of n xs) = xs"
proof (induction n xs rule: chunks_of.induct)
  case (1 n xs)
  then show ?case by (subst chunks_of.simps) auto
qed

lemma length_chunks_of: "0 < n \<Longrightarrow> length (chunks_of n xs) = (length xs + n - 1) div n"
proof (induction n xs rule: chunks_of.induct)
  case (1 n xs)
  show ?case
  proof (cases "xs = []")
    case True
    then show ?thesis using 1 by (subst chunks_of.simps) simp
  next
    case False
    have IH: "length (chunks_of n (drop n xs)) = (length (drop n xs) + n - 1) div n"
      using 1 False by simp
    show ?thesis
    proof (cases "length xs \<le> n")
      case True
      then have "(length xs + n - 1) div n = 1"
        using False 1(2) by (cases xs) (simp_all add: div_eq_dividend_iff Suc_le_eq div_nat_eqI)
      then show ?thesis using False 1(2) True IH by (subst chunks_of.simps) simp
    next
      case F2: False
      then have "length xs + n - 1 = (length xs - n + n - 1) + n" by simp
      then have "(length xs + n - 1) div n = Suc ((length xs - n + n - 1) div n)"
        using 1(2) by (metis div_add_self2 less_numeral_extra(3) Suc_eq_plus1)
      then show ?thesis using False 1(2) IH by (subst chunks_of.simps) simp
    qed
  qed
qed

lemma nth_chunks_of:
  "0 < n \<Longrightarrow> k < length (chunks_of n xs) \<Longrightarrow> chunks_of n xs ! k = take n (drop (k * n) xs)"
proof (induction n xs arbitrary: k rule: chunks_of.induct)
  case (1 n xs)
  have ne: "xs \<noteq> []" using 1(3) by (subst (asm) chunks_of.simps) (auto split: if_splits)
  have unf: "chunks_of n xs = take n xs # chunks_of n (drop n xs)"
    using ne 1(2) by (subst chunks_of.simps) simp
  show ?case
  proof (cases k)
    case 0
    then show ?thesis using unf by simp
  next
    case (Suc k')
    then have "k' < length (chunks_of n (drop n xs))" using 1(3) unf by simp
    then have "chunks_of n (drop n xs) ! k' = take n (drop (k' * n) (drop n xs))"
      using 1 ne by simp
    then show ?thesis using Suc unf by (simp add: add.commute)
  qed
qed


lemma chunks_of_nonempty: "0 < n \<Longrightarrow> xs \<noteq> [] \<Longrightarrow> chunks_of n xs \<noteq> []"
  by (subst chunks_of.simps) simp

lemma dispatch_chunks_eq:
  "0 < sz \<Longrightarrow>
   dispatch_chunks xs sz = (if xs = [] then [[]] else chunks_of (nat sz) xs)"
  by (cases "xs = []")
    (simp_all add: dispatch_chunks_def chunkArray_def chunkArray_loop_chunks
      chunks_of_nonempty chunks_of.simps [of _ "[]"] Let_def)


lemma data_make_payloads: "map data (make_payloads xs sz) = dispatch_chunks xs sz"
  by (simp add: make_payloads_def Let_def map_nth o_def)

text \<open>
  C5.  For a positive batch size the chunks that are sent are, in order, the consecutive
  pieces of the record list: chunk \<open>k\<close> is the \<open>sz\<close> records from position \<open>k * sz\<close>, every
  chunk but the last has exactly \<open>sz\<close> records, the last holds the remainder (between 1
  and \<open>sz\<close> records when there is any record), and an empty record list gives exactly one
  chunk, which is empty.  The payloads carry exactly these chunks.
\<close>

theorem dispatch_chunks_correct:
  assumes "0 < sz"
  shows "map data (make_payloads xs sz) = dispatch_chunks xs sz
       \<and> concat (dispatch_chunks xs sz) = xs
       \<and> (\<forall>k<length (dispatch_chunks xs sz).
            dispatch_chunks xs sz ! k = take (nat sz) (drop (k * nat sz) xs))
       \<and> (\<forall>k. Suc k < length (dispatch_chunks xs sz) \<longrightarrow>
            length (dispatch_chunks xs sz ! k) = nat sz)
       \<and> length (last (dispatch_chunks xs sz))
            = length xs - (length (dispatch_chunks xs sz) - 1) * nat sz
       \<and> length (last (dispatch_chunks xs sz)) \<le> nat sz
       \<and> (xs \<noteq> [] \<longrightarrow> length (dispatch_chunks xs sz) = (length xs + nat sz - 1) div nat sz
                     \<and> 0 < length (last (dispatch_chunks xs sz)))
       \<and> (xs = [] \<longrightarrow> dispatch_chunks xs sz = [[]])"
proof (cases "xs = []")
  case True
  then show ?thesis using assms by (simp add: dispatch_chunks_eq data_make_payloads)
next
  case False
  define n where "n = nat sz"
  define cs where "cs = chunks_of n xs"
  have n: "0 < n" using assms by (simp add: n_def)
  have eq: "dispatch_chunks xs sz = cs"
    using assms False by (simp add: dispatch_chunks_eq cs_def n_def)
  have len: "length cs = (length xs + n - 1) div n"
    unfolding cs_def by (rule length_chunks_of [OF n])
  have ne: "cs \<noteq> []" unfolding cs_def by (rule chunks_of_nonempty [OF n False])
  have nth: "cs ! k = take n (drop (k * n) xs)" if "k < length cs" for k
    using that unfolding cs_def by (rule nth_chunks_of [OF n])
  have bound: "(length cs - 1) * n < length xs"
  proof -
    have "length cs - 1 < length cs" using ne by (cases cs) simp_all
    have "(length cs - 1) * n \<le> length xs + n - 1 - n"
    proof -
      have "length cs * n \<le> length xs + n - 1"
        unfolding len by (simp add: div_times_less_eq_dividend)
      then show ?thesis by (simp add: diff_mult_distrib)
    qed
    also have "\<dots> < length xs" using False n by (cases xs) simp_all
    finally show ?thesis .
  qed
  have full: "length (cs ! k) = n" if "Suc k < length cs" for k
  proof -
    have "Suc k * n \<le> (length cs - 1) * n" using that by (intro mult_le_mono1) simp
    then have "k * n + n \<le> length xs" using bound by simp
    then show ?thesis using nth [of k] that by simp
  qed
  have lastc: "last cs = take n (drop ((length cs - 1) * n) xs)"
    using ne nth [of "length cs - 1"] by (simp add: last_conv_nth)
  have upper: "length xs \<le> length cs * n"
  proof -
    have "length xs + n - 1 < (length xs + n - 1) div n * n + n"
      using n by (metis add.commute div_mult_mod_eq add_less_cancel_left mod_less_divisor mult.commute)
    then show ?thesis unfolding len using n by simp
  qed
  have lastle: "length xs - (length cs - 1) * n \<le> n"
    using upper ne by (cases cs) simp_all
  have lastlen: "length (last cs) = length xs - (length cs - 1) * n"
    using lastle unfolding lastc by simp
  have lastpos: "0 < length (last cs)"
    using bound unfolding lastlen by simp
  have cc: "concat cs = xs"
    unfolding cs_def by (rule concat_chunks_of [OF n])
  show ?thesis
    unfolding eq n_def [symmetric]
    using cc nth full lastlen lastle lastpos len False
    by (simp add: data_make_payloads [of xs sz, unfolded eq])
qed


theorem dispatch_chunks_correct_witness:
  "(0::int) < 200
   \<and> map length (dispatch_chunks (replicate 205 ()) 200) = [200, 5]
   \<and> concat (dispatch_chunks (replicate 205 ()) 200) = replicate 205 ()
   \<and> map count (make_payloads (replicate 205 ()) 200) = [200, 5]
   \<and> dispatch_chunks ([] :: unit list) 200 = [[]]"
proof -
  have e: "map length (dispatch_chunks (replicate 205 ()) 200) = [200, 5]"
    by code_simp
  have c: "map count (make_payloads (replicate 205 ()) 200) = [200, 5]"
    by code_simp
  show ?thesis
    using dispatch_chunks_correct [of 200 "replicate 205 ()"]
      dispatch_chunks_correct [of 200 "[] :: unit list"] e c
    by simp
qed


section \<open>Comment cleaning\<close>

text \<open>
  \<^verbatim>\<open>trim\<close>, \<^verbatim>\<open>trimStart\<close> and \<^verbatim>\<open>trimEnd\<close> remove the code units that ECMAScript
  calls WhiteSpace or LineTerminator: TAB, LF, VT, FF, CR, SP, NBSP, the space separators
  U+1680, U+2000..U+200A, U+202F, U+205F, U+3000, the separators U+2028 and U+2029, and
  U+FEFF.
\<close>

definition isWhiteSpace :: "jschar \<Rightarrow> bool" where
  "isWhiteSpace c \<longleftrightarrow>
     c \<in> {0x0009, 0x000A, 0x000B, 0x000C, 0x000D, 0x0020, 0x00A0, 0x1680,
          0x2000, 0x2001, 0x2002, 0x2003, 0x2004, 0x2005, 0x2006, 0x2007, 0x2008,
          0x2009, 0x200A, 0x2028, 0x2029, 0x202F, 0x205F, 0x3000, 0xFEFF}"

definition trimStart :: "jsstring \<Rightarrow> jsstring" where
  "trimStart s = dropWhile isWhiteSpace s"

definition trimEnd :: "jsstring \<Rightarrow> jsstring" where
  "trimEnd s = rev (dropWhile isWhiteSpace (rev s))"

definition trim :: "jsstring \<Rightarrow> jsstring" where
  "trim s = trimEnd (trimStart s)"

text \<open>
  \<^verbatim>\<open>t.indexOf(m)\<close>: the first position at which \<open>m\<close> starts in \<open>t\<close>; \<open>None\<close> stands for
  the result \<^verbatim>\<open>-1\<close>.  \<^verbatim>\<open>t.slice(0, idx)\<close> with \<open>0 \<le> idx\<close> is \<open>take idx t\<close>.
\<close>

fun indexOf :: "'a list \<Rightarrow> 'a list \<Rightarrow> nat option" where
  "indexOf [] m = (if m = [] then Some 0 else None)"
| "indexOf (x # xs) m =
     (if prefix m (x # xs) then Some 0 else map_option Suc (indexOf xs m))"

text \<open>
  \<^verbatim>\<open>
  function cleanComment(text) {
    let t = (text || "").trim();
    const markers = ["(Translated by Google)", "(\<Uuml>bersetzt von Google)"];
    for (const m of markers) {
      const idx = t.indexOf(m);
      if (idx !== -1) t = t.slice(0, idx).trimEnd();
    }
    return t;
  }
  \<close>
  The argument is a string (\<^verbatim>\<open>main\<close> passes \<^verbatim>\<open>r.comment || ""\<close>), for which
  \<^verbatim>\<open>text || ""\<close> is the string itself.  The second marker starts with the code unit
  U+00DC after its parenthesis.
\<close>

definition markers :: "jsstring list" where
  "markers = [lit ''(Translated by Google)'',
              lit ''('' @ [0x00DC] @ lit ''bersetzt von Google)'']"

fun cleanComment_loop :: "jsstring \<Rightarrow> jsstring list \<Rightarrow> jsstring" where
  "cleanComment_loop t [] = t"
| "cleanComment_loop t (m # ms) =
     cleanComment_loop
       (case indexOf t m of None \<Rightarrow> t | Some idx \<Rightarrow> trimEnd (take idx t)) ms"

definition cleanComment :: "jsstring \<Rightarrow> jsstring" where
  "cleanComment txt = cleanComment_loop (trim txt) markers"

text \<open>
  The specification's wording, to compare with: find the first position of the trimmed
  text at which any marker starts, cut there and trim the end; without such a position
  the trimmed text is the result.
\<close>

definition marker_at :: "jsstring list \<Rightarrow> jsstring \<Rightarrow> nat \<Rightarrow> bool" where
  "marker_at ms t i = (\<exists>m\<in>set ms. prefix m (drop i t))"

definition cleanComment_spec :: "jsstring \<Rightarrow> jsstring" where
  "cleanComment_spec txt =
     (let t = trim txt
      in case find (marker_at markers t) [0..<length t] of
           None \<Rightarrow> t
         | Some i \<Rightarrow> trimEnd (take i t))"

lemma indexOf_Some_iff:
  "indexOf t m = Some i \<longleftrightarrow>
     i \<le> length t \<and> prefix m (drop i t) \<and> (\<forall>j<i. \<not> prefix m (drop j t))"
proof (induction t arbitrary: i)
  case Nil
  then show ?case by auto
next
  case (Cons x xs)
  show ?case
  proof (cases "prefix m (x # xs)")
    case True
    then show ?thesis by (cases i) auto
  next
    case False
    show ?thesis
    proof (cases i)
      case 0
      then show ?thesis using False by simp
    next
      case (Suc k)
      have "(\<forall>j<Suc k. \<not> prefix m (drop j (x # xs))) \<longleftrightarrow> (\<forall>j<k. \<not> prefix m (drop j xs))"
        using False by (auto simp add: less_Suc_eq_0_disj)
      then show ?thesis using False Suc Cons.IH [of k] by auto
    qed
  qed
qed

lemma indexOf_None_iff:
  "indexOf t m = None \<longleftrightarrow> (\<forall>j\<le>length t. \<not> prefix m (drop j t))"
proof
  assume n: "indexOf t m = None"
  show "\<forall>j\<le>length t. \<not> prefix m (drop j t)"
  proof (rule ccontr)
    assume "\<not> (\<forall>j\<le>length t. \<not> prefix m (drop j t))"
    then have ex: "\<exists>j. j \<le> length t \<and> prefix m (drop j t)" by blast
    define k where "k = (LEAST j. j \<le> length t \<and> prefix m (drop j t))"
    have k: "k \<le> length t \<and> prefix m (drop k t)"
      unfolding k_def using ex by (rule LeastI_ex)
    have "\<forall>j<k. \<not> prefix m (drop j t)"
    proof (intro allI impI notI)
      fix j assume "j < k" "prefix m (drop j t)"
      then have "j \<le> length t \<and> prefix m (drop j t)" using k by simp
      then have "k \<le> j" unfolding k_def by (rule Least_le)
      with \<open>j < k\<close> show False by simp
    qed
    with k have "indexOf t m = Some k" by (simp add: indexOf_Some_iff)
    with n show False by simp
  qed
next
  assume a: "\<forall>j\<le>length t. \<not> prefix m (drop j t)"
  show "indexOf t m = None"
  proof (cases "indexOf t m")
    case None
    then show ?thesis .
  next
    case (Some i)
    then show ?thesis using a by (auto simp add: indexOf_Some_iff)
  qed
qed

lemma sublist_iff_prefix_drop:
  "sublist m t \<longleftrightarrow> (\<exists>j\<le>length t. prefix m (drop j t))"
proof
  assume "sublist m t"
  then obtain ps ss where "t = ps @ m @ ss" by (auto simp add: sublist_def)
  then have "length ps \<le> length t \<and> prefix m (drop (length ps) t)" by simp
  then show "\<exists>j\<le>length t. prefix m (drop j t)" by blast
next
  assume "\<exists>j\<le>length t. prefix m (drop j t)"
  then obtain j zs where "drop j t = m @ zs" by (auto simp add: prefix_def)
  then have "t = take j t @ m @ zs" by (metis append_take_drop_id)
  then show "sublist m t" by (metis sublist_appendI)
qed


lemma prefix_drop_mono:
  assumes "prefix p t" "prefix m (drop j p)"
  shows "prefix m (drop j t)"
proof -
  from assms(1) obtain zs where "t = p @ zs" by (auto simp add: prefix_def)
  then have "prefix (drop j p) (drop j t)" by simp
  with assms(2) show ?thesis by (rule prefix_order.trans)
qed

lemma trimEnd_prefix: "prefix (trimEnd s) s"
proof -
  have "suffix (dropWhile isWhiteSpace (rev s)) (rev s)" by (rule suffix_dropWhile)
  then show ?thesis unfolding trimEnd_def by (simp add: suffix_to_prefix)
qed

lemma trimEnd_keep:
  assumes "a \<noteq> []" "\<not> isWhiteSpace (last a)"
  shows "trimEnd (a @ r) = a @ trimEnd r"
proof (cases "\<forall>c\<in>set r. isWhiteSpace c")
  case True
  then have r: "dropWhile isWhiteSpace (rev r) = []" by simp
  have "dropWhile isWhiteSpace (rev r @ rev a) = dropWhile isWhiteSpace (rev a)"
    using True by (intro dropWhile_append2) simp
  moreover have "dropWhile isWhiteSpace (rev a) = rev a"
    using assms by (cases "rev a") (simp_all add: last_rev [symmetric] del: last_rev)
  ultimately show ?thesis using r by (simp add: trimEnd_def)
next
  case False
  then obtain c where "c \<in> set (rev r)" "\<not> isWhiteSpace c" by auto
  then have "dropWhile isWhiteSpace (rev r @ rev a) = dropWhile isWhiteSpace (rev r) @ rev a"
    by (rule dropWhile_append1)
  then show ?thesis by (simp add: trimEnd_def)
qed

lemma trimEnd_idem: "trimEnd (trimEnd s) = trimEnd s"
proof -
  have "dropWhile isWhiteSpace (dropWhile isWhiteSpace (rev s)) = dropWhile isWhiteSpace (rev s)"
    by (rule dropWhile_idem)
  then show ?thesis by (simp add: trimEnd_def)
qed

text \<open>
  What the proof needs to know of the markers: each starts with an opening parenthesis,
  has no other one, and does not end in white space.  So two occurrences of markers never
  overlap, and an occurrence that ends before a cut survives the trimming of the cut.
\<close>

definition good_marker :: "jsstring \<Rightarrow> bool" where
  "good_marker m \<longleftrightarrow> m \<noteq> [] \<and> hd m = 0x28 \<and> 0x28 \<notin> set (tl m) \<and> \<not> isWhiteSpace (last m)"

lemma markers_good: "m \<in> set markers \<Longrightarrow> good_marker m"
  by (auto simp add: markers_def good_marker_def lit_def isWhiteSpace_def)

lemma prefix_drop_bound:
  assumes "m \<noteq> []" "prefix m (drop i t)"
  shows "i + length m \<le> length t" "i < length t" "t ! i = hd m"
proof -
  from assms(2) obtain zs where d: "drop i t = m @ zs" by (auto simp add: prefix_def)
  then have "length (drop i t) = length m + length zs" by simp
  then show l: "i + length m \<le> length t" using assms(1) by (cases m) auto
  with assms(1) show "i < length t" by (cases m) simp_all
  then have "t ! i = hd (drop i t)" by (simp add: hd_drop_conv_nth)
  with d assms(1) show "t ! i = hd m" by simp
qed

lemma no_overlap:
  assumes "m1 \<noteq> []" "hd m1 = 0x28" "good_marker m2"
    and "prefix m1 (drop i t)" "prefix m2 (drop j t)" "j < i"
  shows "j + length m2 \<le> i"
proof (rule ccontr)
  assume "\<not> j + length m2 \<le> i"
  then have lt: "i - j < length m2" and pos: "0 < i - j" using \<open>j < i\<close> by simp_all
  have ti: "t ! i = 0x28" using prefix_drop_bound(3) [OF assms(1,4)] assms(2) by simp
  from assms(5) obtain zs where d: "drop j t = m2 @ zs" by (auto simp add: prefix_def)
  have "i < length t" using prefix_drop_bound(2) [OF assms(1,4)] .
  then have "drop j t ! (i - j) = t ! i" using \<open>j < i\<close> by simp
  then have "m2 ! (i - j) = 0x28" using d lt ti by (simp add: nth_append)
  moreover have "m2 ! (i - j) = tl m2 ! (i - j - 1)"
    using pos lt by (cases m2) (simp_all add: nth_Cons')
  moreover have "i - j - 1 < length (tl m2)" using pos lt by simp
  ultimately have "0x28 \<in> set (tl m2)" by (metis nth_mem)
  with assms(3) show False by (simp add: good_marker_def)
qed

lemma marker_survives:
  assumes "good_marker m" "prefix m (drop j t)" "j + length m \<le> k"
  shows "prefix m (drop j (trimEnd (take k t)))"
proof -
  from assms(2) obtain zs where d: "drop j t = m @ zs" by (auto simp add: prefix_def)
  have t: "t = (take j t @ m) @ zs" using d by (metis append_take_drop_id append.assoc)
  have "take k t = (take j t @ m) @ take (k - (j + length m)) zs"
  proof -
    have lj: "length (take j t @ m) = j + length m"
      using prefix_drop_bound(1) [OF _ assms(2)] assms(1) by (simp add: good_marker_def)
    have "take k t = take k ((take j t @ m) @ zs)" using t by simp
    also have "\<dots> = (take j t @ m) @ take (k - (j + length m)) zs"
      using assms(3) lj by (simp del: append_assoc)
    finally show ?thesis .
  qed
  moreover have "trimEnd ((take j t @ m) @ r) = (take j t @ m) @ trimEnd r" for r
    using assms(1) by (intro trimEnd_keep) (simp_all add: good_marker_def)
  ultimately have "trimEnd (take k t) = take j t @ m @ trimEnd (take (k - (j + length m)) zs)"
    by simp
  moreover have "length (take j t) = j"
    using prefix_drop_bound(1) [OF _ assms(2)] assms(1) by (simp add: good_marker_def)
  ultimately show ?thesis by simp
qed

lemma find_upt_Some:
  "find P [0..<n] = Some i \<longleftrightarrow> i < n \<and> P i \<and> (\<forall>j<i. \<not> P j)"
  by (auto simp add: find_Some_iff)

lemma find_upt_None: "find P [0..<n] = None \<longleftrightarrow> (\<forall>i<n. \<not> P i)"
  by (auto simp add: find_None_iff)


text \<open>The cut at the first marker of a list of markers, for the induction over the loop.\<close>

definition cut_at :: "jsstring list \<Rightarrow> jsstring \<Rightarrow> jsstring" where
  "cut_at ms t =
     (case find (marker_at ms t) [0..<length t] of
        None \<Rightarrow> t
      | Some i \<Rightarrow> trimEnd (take i t))"

lemma marker_at_after_cut:
  assumes good: "\<forall>m\<in>set (m # ms). good_marker m"
    and idx: "indexOf t m = Some k"
  shows "marker_at ms (trimEnd (take k t)) i \<longleftrightarrow> i < k \<and> marker_at ms t i"
proof
  define t' where "t' = trimEnd (take k t)"
  have p: "prefix t' t"
    unfolding t'_def using trimEnd_prefix [of "take k t"] take_is_prefix [of k t]
    by (rule prefix_order.trans)
  have l: "length t' \<le> k"
    unfolding t'_def using trimEnd_prefix [of "take k t"] by (auto dest: prefix_length_le)
  assume "marker_at ms (trimEnd (take k t)) i"
  then obtain m2 where m2: "m2 \<in> set ms" "prefix m2 (drop i t')"
    by (auto simp add: marker_at_def t'_def)
  then have ne: "m2 \<noteq> []" using good by (auto simp add: good_marker_def)
  have "i < length t'" using prefix_drop_bound(2) [OF ne m2(2)] .
  moreover have "prefix m2 (drop i t)" using p m2(2) by (rule prefix_drop_mono)
  ultimately show "i < k \<and> marker_at ms t i" using l m2(1) by (auto simp add: marker_at_def)
next
  assume a: "i < k \<and> marker_at ms t i"
  then obtain m2 where m2: "m2 \<in> set ms" "prefix m2 (drop i t)"
    by (auto simp add: marker_at_def)
  have gm: "good_marker m" and gm2: "good_marker m2" using good m2(1) by simp_all
  have mk: "prefix m (drop k t)" using idx by (simp add: indexOf_Some_iff)
  have "i + length m2 \<le> k"
    using gm gm2 mk m2(2) a by (intro no_overlap [of m m2 k t i]) (simp_all add: good_marker_def)
  then have "prefix m2 (drop i (trimEnd (take k t)))"
    using gm2 m2(2) by (intro marker_survives)
  then show "marker_at ms (trimEnd (take k t)) i" using m2(1) by (auto simp add: marker_at_def)
qed

lemma cut_at_step:
  assumes good: "\<forall>m\<in>set (m # ms). good_marker m"
  shows "cut_at (m # ms) t =
         cut_at ms (case indexOf t m of None \<Rightarrow> t | Some idx \<Rightarrow> trimEnd (take idx t))"
proof (cases "indexOf t m")
  case None
  then have "\<not> prefix m (drop i t)" if "i < length t" for i
    using that by (simp add: indexOf_None_iff)
  then have "find (marker_at (m # ms) t) [0..<length t] = find (marker_at ms t) [0..<length t]"
    by (intro find_cong) (auto simp add: marker_at_def)
  then show ?thesis using None by (simp add: cut_at_def)
next
  case (Some k)
  define t' where "t' = trimEnd (take k t)"
  have gm: "good_marker m" using good by simp
  then have ne: "m \<noteq> []" by (simp add: good_marker_def)
  have mk: "prefix m (drop k t)" and first: "\<forall>j<k. \<not> prefix m (drop j t)"
    using Some by (simp_all add: indexOf_Some_iff)
  have kt: "k < length t" using prefix_drop_bound(2) [OF ne mk] .
  have p: "prefix t' t"
    unfolding t'_def using trimEnd_prefix [of "take k t"] take_is_prefix [of k t]
    by (rule prefix_order.trans)
  have l: "length t' \<le> k"
    unfolding t'_def using trimEnd_prefix [of "take k t"] by (auto dest: prefix_length_le)
  have X: "marker_at ms t' i \<longleftrightarrow> i < k \<and> marker_at ms t i" for i
    unfolding t'_def using good Some by (rule marker_at_after_cut)
  have beyond: "\<not> marker_at ms t' i" if "length t' \<le> i" for i
  proof
    assume "marker_at ms t' i"
    then obtain m2 where "m2 \<in> set ms" "prefix m2 (drop i t')" by (auto simp add: marker_at_def)
    moreover from this have "m2 \<noteq> []" using good by (auto simp add: good_marker_def)
    ultimately have "i < length t'" by (auto dest: prefix_drop_bound(2))
    with that show False by simp
  qed
  have split: "marker_at (m # ms) t i \<longleftrightarrow> prefix m (drop i t) \<or> marker_at ms t i" for i
    by (auto simp add: marker_at_def)
  show ?thesis
  proof (cases "find (marker_at ms t') [0..<length t']")
    case None
    then have "\<not> marker_at ms t' i" for i
      using beyond [of i] by (cases "i < length t'") (simp_all add: find_upt_None)
    then have no: "\<not> marker_at ms t i" if "i < k" for i using X [of i] that by simp
    have "find (marker_at (m # ms) t) [0..<length t] = Some k"
      unfolding find_upt_Some using kt mk first no by (simp add: split)
    then show ?thesis using None Some by (simp add: cut_at_def t'_def)
  next
    case (Some i)
    then have i: "i < length t'" "marker_at ms t' i" "\<forall>j<i. \<not> marker_at ms t' j"
      by (simp_all add: find_upt_Some)
    have ik: "i < k" and mi: "marker_at ms t i" using i(2) X [of i] by simp_all
    have "\<not> marker_at (m # ms) t j" if "j < i" for j
      using that i(3) X [of j] first ik by (simp add: split)
    then have "find (marker_at (m # ms) t) [0..<length t] = Some i"
      unfolding find_upt_Some using ik kt mi by (simp add: split)
    moreover have "take i t' = take i t"
    proof -
      from p obtain zs where "t = t' @ zs" by (auto simp add: prefix_def)
      then show ?thesis using i(1) by simp
    qed
    ultimately show ?thesis using Some \<open>indexOf t m = Some k\<close> by (simp add: cut_at_def t'_def)
  qed
qed

lemma cleanComment_loop_cut_at:
  "\<forall>m\<in>set ms. good_marker m \<Longrightarrow> cleanComment_loop t ms = cut_at ms t"
proof (induction ms arbitrary: t)
  case Nil
  have "find (marker_at [] t) [0..<length t] = None"
    by (simp add: find_upt_None marker_at_def)
  then show ?case by (simp add: cut_at_def)
next
  case (Cons m ms)
  then show ?case by (simp add: cut_at_step [OF Cons.prems])
qed

lemma cleanComment_eq_spec: "cleanComment txt = cleanComment_spec txt"
  using markers_good
  by (simp add: cleanComment_def cleanComment_spec_def cleanComment_loop_cut_at cut_at_def Let_def)


lemma sublist_transitive:
  assumes "sublist xs ys" "sublist ys zs"
  shows "sublist xs zs"
proof -
  from assms obtain p1 s1 p2 s2 where "ys = p1 @ xs @ s1" "zs = p2 @ ys @ s2"
    by (auto simp add: sublist_def)
  then have "zs = (p2 @ p1) @ xs @ (s1 @ s2)" by simp
  then show ?thesis unfolding sublist_def by blast
qed

lemma sublist_trim: "sublist (trim s) s"
proof -
  have "sublist (trimEnd (trimStart s)) (trimStart s)"
    using trimEnd_prefix by (rule prefix_imp_sublist)
  moreover have "sublist (trimStart s) s"
    unfolding trimStart_def by (rule sublist_dropWhile)
  ultimately show ?thesis unfolding trim_def by (rule sublist_transitive)
qed

lemma cleanComment_no_marker:
  assumes "\<forall>m\<in>set markers. \<not> sublist m txt"
  shows "cleanComment txt = trim txt"
proof -
  have "\<not> marker_at markers (trim txt) i" for i
  proof
    assume "marker_at markers (trim txt) i"
    then obtain m where m: "m \<in> set markers" "prefix m (drop i (trim txt))"
      by (auto simp add: marker_at_def)
    then have "m \<noteq> []" using markers_good [of m] by (simp add: good_marker_def)
    then have "i \<le> length (trim txt)" using prefix_drop_bound(2) [OF _ m(2)] by simp
    then have "sublist m (trim txt)" using m(2) by (auto simp add: sublist_iff_prefix_drop)
    then have "sublist m txt" using sublist_trim by (rule sublist_transitive)
    with assms m(1) show False by simp
  qed
  then have "find (marker_at markers (trim txt)) [0..<length (trim txt)] = None"
    by (simp add: find_upt_None)
  then show ?thesis by (simp add: cleanComment_eq_spec cleanComment_spec_def)
qed

lemma cleanComment_trimmed: "trimEnd (cleanComment txt) = cleanComment txt"
  by (simp add: cleanComment_eq_spec cleanComment_spec_def Let_def trim_def trimEnd_idem
      split: option.split)

lemma cleanComment_marker_free:
  assumes "m \<in> set markers"
  shows "\<not> sublist m (cleanComment txt)"
proof
  define t where "t = trim txt"
  define r where "r = cleanComment txt"
  assume "sublist m (cleanComment txt)"
  then obtain j where j: "prefix m (drop j r)"
    by (auto simp add: sublist_iff_prefix_drop r_def)
  have ne: "m \<noteq> []" using markers_good [OF assms] by (simp add: good_marker_def)
  have jr: "j + length m \<le> length r" using prefix_drop_bound(1) [OF ne j] .
  show False
  proof (cases "find (marker_at markers t) [0..<length t]")
    case None
    then have "r = t" by (simp add: r_def cleanComment_eq_spec cleanComment_spec_def t_def)
    then have "marker_at markers t j" "j < length t"
      using j assms prefix_drop_bound(2) [OF ne j] by (auto simp add: marker_at_def)
    with None show False by (simp add: find_upt_None)
  next
    case (Some i)
    then have r: "r = trimEnd (take i t)"
      by (simp add: r_def cleanComment_eq_spec cleanComment_spec_def t_def)
    have p: "prefix r t"
      unfolding r using trimEnd_prefix [of "take i t"] take_is_prefix [of i t]
      by (rule prefix_order.trans)
    have "length r \<le> i"
      unfolding r using trimEnd_prefix [of "take i t"] by (auto dest: prefix_length_le)
    then have "j < i" using jr ne by (cases m) auto
    moreover have "marker_at markers t j"
      using prefix_drop_mono [OF p j] assms by (auto simp add: marker_at_def)
    ultimately show False using Some by (simp add: find_upt_Some)
  qed
qed

text \<open>
  C6.  \<open>cleanComment\<close> trims its argument and cuts it at the first position where any of
  the markers starts, dropping the marker and all that follows, and trims the end of what
  is left: the marker-by-marker loop of the source computes exactly that.  A text in which
  no marker occurs is returned trimmed and otherwise unchanged; the result never ends in
  white space and never contains a marker; and
  \<^verbatim>\<open>"Great place (Translated by Google)"\<close> gives \<^verbatim>\<open>"Great place"\<close>.
\<close>

theorem cleanComment_correct:
  "cleanComment txt = cleanComment_spec txt
   \<and> ((\<forall>m\<in>set markers. \<not> sublist m txt) \<longrightarrow> cleanComment txt = trim txt)
   \<and> trimEnd (cleanComment txt) = cleanComment txt
   \<and> (\<forall>m\<in>set markers. \<not> sublist m (cleanComment txt))
   \<and> cleanComment (lit ''Great place (Translated by Google)'') = lit ''Great place''"
proof -
  have "cleanComment (lit ''Great place (Translated by Google)'') = lit ''Great place''"
    by (simp add: cleanComment_def trim_def trimStart_def trimEnd_def isWhiteSpace_def
        lit_def markers_def)
  then show ?thesis
    using cleanComment_eq_spec cleanComment_no_marker cleanComment_trimmed
      cleanComment_marker_free by blast
qed

theorem cleanComment_correct_witness:
  "list_all (\<lambda>m. \<not> sublist m (lit ''  Sehr gut!  '')) markers
   \<and> cleanComment (lit ''  Sehr gut!  '') = lit ''Sehr gut!''
   \<and> cleanComment (lit ''Great place (Translated by Google)'') = lit ''Great place''"
proof -
  have n: "\<forall>m\<in>set markers. \<not> sublist m (lit ''  Sehr gut!  '')"
    by (simp add: markers_def lit_def sublist_Cons_right)
  have t: "trim (lit ''  Sehr gut!  '') = lit ''Sehr gut!''"
    by (simp add: trim_def trimStart_def trimEnd_def isWhiteSpace_def lit_def)
  have c: "cleanComment (lit ''  Sehr gut!  '') = trim (lit ''  Sehr gut!  '')"
    using cleanComment_correct [of "lit ''  Sehr gut!  ''"] n by blast
  have g: "cleanComment (lit ''Great place (Translated by Google)'') = lit ''Great place''"
    using cleanComment_correct [of "[]"] by blast
  have l: "list_all (\<lambda>m. \<not> sublist m (lit ''  Sehr gut!  '')) markers"
    using n by (simp only: list_all_iff)
  show ?thesis using l c g t by simp
qed



section \<open>The retrying HTTP client\<close>

text \<open>
  A response carries its status, its status text, what \<^verbatim>\<open>res.text()\<close> gives (the body,
  or the error it rejects with) and what parsing the body as JSON gives (\<^verbatim>\<open>res.json()\<close>,
  or \<^verbatim>\<open>JSON.parse\<close> of the text); the type \<open>'j\<close> is the shape of the parsed body.
  \<^verbatim>\<open>fetch\<close> either rejects (a network-level failure) or resolves with a response.
\<close>

record 'j response =
  status :: nat
  statusText :: jsstring
  bodyText :: "jserror + jsstring"
  bodyJson :: "jserror + 'j"

datatype 'j outcome = Rejected jserror | Responded "'j response"

definition ok :: "'j response \<Rightarrow> bool" where
  "ok res = (200 \<le> status res \<and> status res \<le> 299)"

text \<open>
  \<^verbatim>\<open>
  async function requestWithRetry(url, options = {}, { retries = 4, baseBackoffMs = 800 } = {}) {
    let lastErr;
    for (let i = 0; i < retries; i++) {
      try {
        const res = await fetch(url, options);
        if ([429, 500, 502, 503, 504].includes(res.status)) {
          const txt = await res.text().catch(() => "");
          lastErr = new Error(`HTTP ${res.status} ${res.statusText}: ${txt}`);
          await sleep(baseBackoffMs * Math.pow(2, i));
          continue;
        }
        return res;
      } catch (e) {
        lastErr = e;
        await sleep(baseBackoffMs * Math.pow(2, i));
      }
    }
    throw lastErr || new Error("requestWithRetry failed");
  }
  \<close>
  The network is the argument \<open>fetch\<close>: what the \<open>i\<close>-th call of \<^verbatim>\<open>fetch\<close> for this
  request does.  The result records, beside the response or the thrown error, the effects:
  the number of calls of \<^verbatim>\<open>fetch\<close> and the delays slept, in order.  Every caller in
  the script uses the default options, which \<open>requestWithRetry\<close> fixes.
\<close>

definition text_or_empty :: "'j response \<Rightarrow> jsstring" where
  "text_or_empty res = (case bodyText res of Inl e \<Rightarrow> [] | Inr t \<Rightarrow> t)"

definition http_error :: "'j response \<Rightarrow> jserror" where
  "http_error res =
     Thrown Error (lit ''HTTP '' @ show_nat (status res) @ lit '' '' @ statusText res
                   @ lit '': '' @ text_or_empty res)"

record 'j attempt_result =
  result :: "jserror + 'j response"
  calls :: nat
  sleeps :: "nat list"

function requestWithRetry_loop ::
  "(nat \<Rightarrow> 'j outcome) \<Rightarrow> nat \<Rightarrow> nat \<Rightarrow> nat \<Rightarrow> jserror option \<Rightarrow> nat list \<Rightarrow> 'j attempt_result"
where
  "requestWithRetry_loop fetch retries baseBackoffMs i lastErr slept =
     (if i < retries then
        (case fetch i of
           Responded res \<Rightarrow>
             if status res \<in> set [429, 500, 502, 503, 504]
             then requestWithRetry_loop fetch retries baseBackoffMs (i + 1)
                    (Some (http_error res)) (slept @ [baseBackoffMs * 2 ^ i])
             else \<lparr>result = Inr res, calls = i + 1, sleeps = slept\<rparr>
         | Rejected e \<Rightarrow>
             requestWithRetry_loop fetch retries baseBackoffMs (i + 1)
               (Some e) (slept @ [baseBackoffMs * 2 ^ i]))
      else \<lparr>result = Inl (case lastErr of Some e \<Rightarrow> e
                            | None \<Rightarrow> Thrown Error (lit ''requestWithRetry failed'')),
            calls = i, sleeps = slept\<rparr>)"
  by pat_completeness auto
termination
  by (relation "measure (\<lambda>(fetch, retries, b, i, l, s). retries - i)") auto

declare requestWithRetry_loop.simps [simp del]

definition requestWithRetry :: "(nat \<Rightarrow> 'j outcome) \<Rightarrow> 'j attempt_result" where
  "requestWithRetry fetch = requestWithRetry_loop fetch 4 800 0 None []"

text \<open>
  The contract in the specification's words: which outcomes are retried, the error a
  failed attempt leaves behind, and the delay before attempt \<open>a + 1\<close>.
\<close>

definition retryable :: "'j outcome \<Rightarrow> bool" where
  "retryable out = (case out of Rejected e \<Rightarrow> True
                    | Responded res \<Rightarrow> status res \<in> {429, 500, 502, 503, 504})"

definition error_of :: "'j outcome \<Rightarrow> jserror" where
  "error_of out = (case out of Rejected e \<Rightarrow> e | Responded res \<Rightarrow> http_error res)"

definition outcome_result :: "'j outcome \<Rightarrow> jserror + 'j response" where
  "outcome_result out = (case out of Rejected e \<Rightarrow> Inl e | Responded res \<Rightarrow> Inr res)"

definition backoffs :: "nat \<Rightarrow> nat \<Rightarrow> nat \<Rightarrow> nat list" where
  "backoffs b i k = map (\<lambda>a. b * 2 ^ a) [i..<k]"

lemma find_Some_mem: "find P xs = Some x \<Longrightarrow> x \<in> set xs"
  by (induction xs) (auto split: if_splits)

lemma requestWithRetry_loop_closed:
  "i \<le> retries \<Longrightarrow>
   requestWithRetry_loop fetch retries b i lastErr slept =
     (case find (\<lambda>k. \<not> retryable (fetch k)) [i..<retries] of
        Some k \<Rightarrow> \<lparr>result = outcome_result (fetch k), calls = k + 1,
                    sleeps = slept @ backoffs b i k\<rparr>
      | None \<Rightarrow> \<lparr>result = Inl (if i = retries
                               then (case lastErr of Some e \<Rightarrow> e
                                     | None \<Rightarrow> Thrown Error (lit ''requestWithRetry failed''))
                               else error_of (fetch (retries - 1))),
                  calls = retries, sleeps = slept @ backoffs b i retries\<rparr>)"
proof (induction fetch retries b i lastErr slept rule: requestWithRetry_loop.induct)
  case (1 fetch retries b i lastErr slept)
  show ?case
  proof (cases "i < retries")
    case False
    then have "i = retries" using 1(3) by simp
    then show ?thesis
      by (subst requestWithRetry_loop.simps) (simp add: backoffs_def)
  next
    case True
    then have upt: "[i..<retries] = i # [Suc i..<retries]" by (simp add: upt_conv_Cons)
    have bk: "backoffs b i k = (b * 2 ^ i) # backoffs b (Suc i) k" if "i < k" for k
      using that by (simp add: backoffs_def upt_conv_Cons)
    show ?thesis
    proof (cases "fetch i")
      case (Rejected e)
      have r: "retryable (fetch i)" using Rejected by (simp add: retryable_def)
      have IH: "requestWithRetry_loop fetch retries b (i + 1) (Some e) (slept @ [b * 2 ^ i]) =
        (case find (\<lambda>k. \<not> retryable (fetch k)) [i + 1..<retries] of
          Some k \<Rightarrow> \<lparr>result = outcome_result (fetch k), calls = k + 1,
                      sleeps = (slept @ [b * 2 ^ i]) @ backoffs b (i + 1) k\<rparr>
        | None \<Rightarrow> \<lparr>result = Inl (if i + 1 = retries
                               then (case Some e of Some e \<Rightarrow> e
                                     | None \<Rightarrow> Thrown Error (lit ''requestWithRetry failed''))
                               else error_of (fetch (retries - 1))),
                  calls = retries, sleeps = (slept @ [b * 2 ^ i]) @ backoffs b (i + 1) retries\<rparr>)"
        using 1(1) [OF True Rejected] True by simp
      have last: "i + 1 = retries \<Longrightarrow> error_of (fetch (retries - 1)) = e"
        using Rejected by (auto simp add: error_of_def)
      have ge: "k \<in> set [Suc i..<retries] \<Longrightarrow> i < k" for k by simp
      show ?thesis
        apply (subst requestWithRetry_loop.simps)
        using True Rejected r IH last
        by (auto simp add: upt bk split: option.splits dest!: find_Some_mem [THEN ge])
    next
      case (Responded res)
      show ?thesis
      proof (cases "status res \<in> set [429, 500, 502, 503, 504]")
        case False
        then have "\<not> retryable (fetch i)" using Responded by (simp add: retryable_def)
        then show ?thesis
          apply (subst requestWithRetry_loop.simps)
          using True Responded False by (simp add: upt outcome_result_def backoffs_def)
      next
        case T: True
        then have r: "retryable (fetch i)" using Responded by (simp add: retryable_def)
        have IH: "requestWithRetry_loop fetch retries b (i + 1) (Some (http_error res)) (slept @ [b * 2 ^ i]) =
          (case find (\<lambda>k. \<not> retryable (fetch k)) [i + 1..<retries] of
            Some k \<Rightarrow> \<lparr>result = outcome_result (fetch k), calls = k + 1,
                        sleeps = (slept @ [b * 2 ^ i]) @ backoffs b (i + 1) k\<rparr>
          | None \<Rightarrow> \<lparr>result = Inl (if i + 1 = retries
                                 then (case Some (http_error res) of Some e \<Rightarrow> e
                                       | None \<Rightarrow> Thrown Error (lit ''requestWithRetry failed''))
                                 else error_of (fetch (retries - 1))),
                    calls = retries, sleeps = (slept @ [b * 2 ^ i]) @ backoffs b (i + 1) retries\<rparr>)"
          using 1(2) [OF True Responded T] True by simp
        have last: "i + 1 = retries \<Longrightarrow> error_of (fetch (retries - 1)) = http_error res"
          using Responded by (auto simp add: error_of_def)
        have ge: "k \<in> set [Suc i..<retries] \<Longrightarrow> i < k" for k by simp
        show ?thesis
          apply (subst requestWithRetry_loop.simps)
          using True Responded r IH last T
          by (auto simp add: upt bk split: option.splits dest!: find_Some_mem [THEN ge])
      qed
    qed
  qed
qed


lemma upt_0_4: "[0..<4] = [0, 1, 2, 3::nat]"
  by (simp add: upt_rec)

lemma requestWithRetry_closed:
  "requestWithRetry fetch =
     (case find (\<lambda>k. \<not> retryable (fetch k)) [0..<4] of
        Some k \<Rightarrow> \<lparr>result = outcome_result (fetch k), calls = k + 1,
                    sleeps = map (\<lambda>a. 800 * 2 ^ a) [0..<k]\<rparr>
      | None \<Rightarrow> \<lparr>result = Inl (error_of (fetch 3)), calls = 4,
                  sleeps = [800, 1600, 3200, 6400]\<rparr>)"
  by (simp add: requestWithRetry_def requestWithRetry_loop_closed backoffs_def upt_0_4
      split: option.split)

text \<open>
  C2.  \<open>requestWithRetry\<close> calls \<^verbatim>\<open>fetch\<close> at least once and at most 4 times.  It goes
  on to another attempt only after a rejected \<^verbatim>\<open>fetch\<close> or a response with status 429,
  500, 502, 503 or 504, and sleeps \<open>800 * 2 ^ i\<close> ms after failed attempt \<open>i\<close> (counted from
  0).  The first response with any other status is returned at once.  When all four
  attempts fail it throws the error of the last one: the network exception, or the error
  made from the last status, status text and body.  (The delay of 6400 ms after the
  fourth failed attempt is slept too, before the error is thrown.)
\<close>

theorem requestWithRetry_correct:
  "requestWithRetry fetch =
     (case find (\<lambda>k. \<not> retryable (fetch k)) [0..<4] of
        Some k \<Rightarrow> \<lparr>result = outcome_result (fetch k), calls = k + 1,
                    sleeps = map (\<lambda>a. 800 * 2 ^ a) [0..<k]\<rparr>
      | None \<Rightarrow> \<lparr>result = Inl (error_of (fetch 3)), calls = 4,
                  sleeps = [800, 1600, 3200, 6400]\<rparr>)
   \<and> 1 \<le> calls (requestWithRetry fetch) \<and> calls (requestWithRetry fetch) \<le> 4
   \<and> (\<forall>i. Suc i < calls (requestWithRetry fetch) \<longrightarrow> retryable (fetch i))
   \<and> sleeps (requestWithRetry fetch)
       = map (\<lambda>a. 800 * 2 ^ a) [0..<length (sleeps (requestWithRetry fetch))]
   \<and> calls (requestWithRetry fetch) - 1 \<le> length (sleeps (requestWithRetry fetch))
   \<and> (\<forall>i res. i < 4 \<and> (\<forall>j<i. retryable (fetch j)) \<and> fetch i = Responded res
         \<and> status res \<notin> {429, 500, 502, 503, 504}
         \<longrightarrow> requestWithRetry fetch
               = \<lparr>result = Inr res, calls = i + 1, sleeps = map (\<lambda>a. 800 * 2 ^ a) [0..<i]\<rparr>)
   \<and> ((\<forall>i<4. retryable (fetch i))
         \<longrightarrow> result (requestWithRetry fetch) = Inl (error_of (fetch 3))
             \<and> calls (requestWithRetry fetch) = 4)"
proof (cases "find (\<lambda>k. \<not> retryable (fetch k)) [0..<4]")
  case None
  then have all: "\<forall>i<4. retryable (fetch i)" by (simp add: find_upt_None)
  have r: "requestWithRetry fetch =
      \<lparr>result = Inl (error_of (fetch 3)), calls = 4, sleeps = [800, 1600, 3200, 6400]\<rparr>"
    using None by (simp add: requestWithRetry_closed)
  have c1: "requestWithRetry fetch =
     (case find (\<lambda>k. \<not> retryable (fetch k)) [0..<4] of
        Some k \<Rightarrow> \<lparr>result = outcome_result (fetch k), calls = k + 1,
                    sleeps = map (\<lambda>a. 800 * 2 ^ a) [0..<k]\<rparr>
      | None \<Rightarrow> \<lparr>result = Inl (error_of (fetch 3)), calls = 4,
                  sleeps = [800, 1600, 3200, 6400]\<rparr>)"
    by (rule requestWithRetry_closed)
  have c2: "1 \<le> calls (requestWithRetry fetch) \<and> calls (requestWithRetry fetch) \<le> 4"
    by (simp add: r)
  have c3: "\<forall>i. Suc i < calls (requestWithRetry fetch) \<longrightarrow> retryable (fetch i)"
    using all by (simp add: r)
  have c4: "sleeps (requestWithRetry fetch)
       = map (\<lambda>a. 800 * 2 ^ a) [0..<length (sleeps (requestWithRetry fetch))]"
    by (simp add: r upt_0_4)
  have c5: "calls (requestWithRetry fetch) - 1 \<le> length (sleeps (requestWithRetry fetch))"
    by (simp add: r)
  have c6: "\<forall>i res. i < 4 \<and> (\<forall>j<i. retryable (fetch j)) \<and> fetch i = Responded res
         \<and> status res \<notin> {429, 500, 502, 503, 504}
         \<longrightarrow> requestWithRetry fetch
               = \<lparr>result = Inr res, calls = i + 1, sleeps = map (\<lambda>a. 800 * 2 ^ a) [0..<i]\<rparr>"
  proof (intro allI impI)
    fix i res
    assume a: "i < 4 \<and> (\<forall>j<i. retryable (fetch j)) \<and> fetch i = Responded res
         \<and> status res \<notin> {429, 500, 502, 503, 504}"
    then have "\<not> retryable (fetch i)" by (simp add: retryable_def)
    with all a have False by blast
    then show "requestWithRetry fetch
               = \<lparr>result = Inr res, calls = i + 1, sleeps = map (\<lambda>a. 800 * 2 ^ a) [0..<i]\<rparr>" ..
  qed
  have c7: "(\<forall>i<4. retryable (fetch i))
         \<longrightarrow> result (requestWithRetry fetch) = Inl (error_of (fetch 3))
             \<and> calls (requestWithRetry fetch) = 4"
    by (simp add: r)
  from c1 c2 c3 c4 c5 c6 c7 show ?thesis by blast
next
  case (Some k)
  then have k: "k < 4" "\<not> retryable (fetch k)" "\<forall>j<k. retryable (fetch j)"
    by (simp_all add: find_upt_Some)
  have r: "requestWithRetry fetch =
      \<lparr>result = outcome_result (fetch k), calls = k + 1,
       sleeps = map (\<lambda>a. 800 * 2 ^ a) [0..<k]\<rparr>"
    using Some by (simp add: requestWithRetry_closed)
  have c1: "requestWithRetry fetch =
     (case find (\<lambda>k. \<not> retryable (fetch k)) [0..<4] of
        Some k \<Rightarrow> \<lparr>result = outcome_result (fetch k), calls = k + 1,
                    sleeps = map (\<lambda>a. 800 * 2 ^ a) [0..<k]\<rparr>
      | None \<Rightarrow> \<lparr>result = Inl (error_of (fetch 3)), calls = 4,
                  sleeps = [800, 1600, 3200, 6400]\<rparr>)"
    by (rule requestWithRetry_closed)
  have c2: "1 \<le> calls (requestWithRetry fetch) \<and> calls (requestWithRetry fetch) \<le> 4"
    using k(1) by (simp add: r)
  have c3: "\<forall>i. Suc i < calls (requestWithRetry fetch) \<longrightarrow> retryable (fetch i)"
    using k(3) by (simp add: r)
  have c4: "sleeps (requestWithRetry fetch)
       = map (\<lambda>a. 800 * 2 ^ a) [0..<length (sleeps (requestWithRetry fetch))]"
    by (simp add: r)
  have c5: "calls (requestWithRetry fetch) - 1 \<le> length (sleeps (requestWithRetry fetch))"
    by (simp add: r)
  have c6: "\<forall>i res. i < 4 \<and> (\<forall>j<i. retryable (fetch j)) \<and> fetch i = Responded res
         \<and> status res \<notin> {429, 500, 502, 503, 504}
         \<longrightarrow> requestWithRetry fetch
               = \<lparr>result = Inr res, calls = i + 1, sleeps = map (\<lambda>a. 800 * 2 ^ a) [0..<i]\<rparr>"
  proof (intro allI impI)
    fix i res
    assume a: "i < 4 \<and> (\<forall>j<i. retryable (fetch j)) \<and> fetch i = Responded res
         \<and> status res \<notin> {429, 500, 502, 503, 504}"
    then have n: "\<not> retryable (fetch i)" by (simp add: retryable_def)
    have "\<not> i < k" using n k(3) by blast
    moreover have "\<not> k < i" using a k(2) by blast
    ultimately have "i = k" by simp
    then show "requestWithRetry fetch
               = \<lparr>result = Inr res, calls = i + 1, sleeps = map (\<lambda>a. 800 * 2 ^ a) [0..<i]\<rparr>"
      using a by (simp add: r outcome_result_def)
  qed
  have c7: "(\<forall>i<4. retryable (fetch i))
         \<longrightarrow> result (requestWithRetry fetch) = Inl (error_of (fetch 3))
             \<and> calls (requestWithRetry fetch) = 4"
    using k(1,2) by blast
  from c1 c2 c3 c4 c5 c6 c7 show ?thesis by blast
qed

text \<open>
  Two networks to run the client on: one whose first two calls fail at the network level
  and whose third call answers 404, and one that always answers 503.
\<close>

definition flaky :: "nat \<Rightarrow> unit outcome" where
  "flaky i = (if i < 2 then Rejected (Thrown TypeError (lit ''fetch failed''))
              else Responded \<lparr>status = 404, statusText = lit ''Not Found'',
                     bodyText = Inr [], bodyJson = Inr ()\<rparr>)"

definition busy :: "nat \<Rightarrow> unit outcome" where
  "busy i = Responded \<lparr>status = 503, statusText = lit ''Busy'',
                     bodyText = Inr (lit ''x''), bodyJson = Inr ()\<rparr>"

theorem requestWithRetry_correct_witness:
  "requestWithRetry flaky =
     \<lparr>result = Inr \<lparr>status = 404, statusText = lit ''Not Found'',
                     bodyText = Inr [], bodyJson = Inr ()\<rparr>,
      calls = 3, sleeps = [800, 1600]\<rparr>
   \<and> requestWithRetry busy =
     \<lparr>result = Inl (Thrown Error (lit ''HTTP 503 Busy: x'')), calls = 4,
      sleeps = [800, 1600, 3200, 6400]\<rparr>"
proof -
  have f: "find (\<lambda>k. \<not> retryable (flaky k)) [0..<4] = Some 2"
    by (simp add: upt_0_4 flaky_def retryable_def)
  have b: "find (\<lambda>k. \<not> retryable (busy k)) [0..<4] = None"
    by (simp add: upt_0_4 busy_def retryable_def)
  have e: "error_of (busy 3) = Thrown Error (lit ''HTTP 503 Busy: x'')"
    by (simp add: busy_def error_of_def http_error_def text_or_empty_def show_nat.simps lit_def)
  have u: "[0..<2] = [0, 1::nat]" by (simp add: upt_rec)
  show ?thesis
    using requestWithRetry_correct [of flaky] requestWithRetry_correct [of busy] f b e
    by (simp add: outcome_result_def flaky_def u)
qed



section \<open>The review harvester\<close>

text \<open>
  \<^verbatim>\<open>
  async function getJson(url, { headers = {}, params = null } = {}) {
    ...
    const res = await requestWithRetry(u.toString(), { headers, method: "GET" });
    if (!res.ok) {
      const txt = await res.text().catch(() => "");
      throw new Error(`GET ${u.toString()} -> ${res.status}: ${txt}`);
    }
    return await res.json();
  }
  \<close>
  \<open>u\<close> is the address printed in the error message (the query string that
  \<^verbatim>\<open>URL.toString\<close> appends is not modelled; no theorem below reads the message).
\<close>

definition getJson :: "jsstring \<Rightarrow> (nat \<Rightarrow> 'j outcome) \<Rightarrow> jserror + 'j" where
  "getJson u fetch =
     (case result (requestWithRetry fetch) of
        Inl e \<Rightarrow> Inl e
      | Inr res \<Rightarrow>
          if \<not> ok res
          then Inl (Thrown Error (lit ''GET '' @ u @ lit '' -> '' @ show_nat (status res)
                                  @ lit '': '' @ text_or_empty res))
          else bodyJson res)"

text \<open>
  A review as the review source delivers it.  The field \<^verbatim>\<open>createTime\<close> is absent or
  empty (\<open>NoTime\<close>), a text that \<^verbatim>\<open>DateTime.fromISO\<close> cannot read (\<open>BadTime\<close>: the
  \<^verbatim>\<open>toMillis()\<close> of an invalid \<^verbatim>\<open>DateTime\<close> is \<^verbatim>\<open>NaN\<close>, and every comparison with
  it is false), or a timestamp, given in milliseconds since the epoch as \<^verbatim>\<open>toMillis()\<close>
  returns it (\<^verbatim>\<open>setZone\<close> does not change the instant).  A text field that is absent
  is the empty string, which is what \<^verbatim>\<open>field || ""\<close> makes of it.
\<close>

datatype ctime = NoTime | BadTime | Millis int

record review =
  r_name :: jsstring
  r_createTime :: ctime
  r_starRating :: jsval
  r_displayName :: jsstring
  r_profileName :: jsstring
  r_comment :: jsstring

record reviews_page =
  reviews :: "review list"
  nextPageToken :: jsstring

text \<open>
  \<^verbatim>\<open>
  async function listReviewsForLocation(accessToken, accountId, locationId, startBerlin, endBerlin) {
    const out = [];
    let pageToken = "";
    let pagesBelowCutoff = 0;
    do {
      const j = await getJson(`https://mybusiness.googleapis.com/v4/accounts/${accountId}/locations/${locationId}/reviews`,
        { headers: ..., params: { pageSize: "50", orderBy: "updateTime desc", pageToken } });
      const reviews = j.reviews || [];
      if (reviews.length === 0) break;
      let anyGeStart = false;
      for (const r of reviews) {
        const ct = r.createTime;
        if (!ct) continue;
        const dtBerlin = DateTime.fromISO(ct, { setZone: true }).setZone(TZ);
        if (dtBerlin.toMillis() >= startBerlin.toMillis()) anyGeStart = true;
        if (dtBerlin.toMillis() >= startBerlin.toMillis() && dtBerlin.toMillis() <= endBerlin.toMillis()) {
          out.push(r);
        }
      }
      if (!anyGeStart) pagesBelowCutoff += 1;
      else pagesBelowCutoff = 0;
      if (pagesBelowCutoff >= 2) break;
      pageToken = j.nextPageToken || "";
      if (pageToken) await sleep(120);
    } while (pageToken);
    return out;
  }
  \<close>
  \<open>scan_reviews\<close> is the inner loop over one page.  The review source is the argument
  \<open>net\<close>: for a page token, what the calls of \<^verbatim>\<open>fetch\<close> for that page do.  The outer
  loop may run forever (a source can hand out tokens without end), so it takes fuel, one
  unit per page, and \<open>None\<close> is the run that has not returned when the fuel is used up.
  A run that returns gives the reviews collected and, as the trace of its requests, the
  page tokens it has asked for, in order; a run in which \<^verbatim>\<open>getJson\<close> throws gives the
  error.  \<open>s\<close> and \<open>e\<close> are \<^verbatim>\<open>startBerlin.toMillis()\<close> and \<^verbatim>\<open>endBerlin.toMillis()\<close>.
\<close>

fun scan_reviews :: "int \<Rightarrow> int \<Rightarrow> review list \<Rightarrow> bool \<Rightarrow> review list \<Rightarrow> bool \<times> review list" where
  "scan_reviews s e [] anyGeStart out = (anyGeStart, out)"
| "scan_reviews s e (r # rs) anyGeStart out =
     (case r_createTime r of
        NoTime \<Rightarrow> scan_reviews s e rs anyGeStart out
      | BadTime \<Rightarrow> scan_reviews s e rs anyGeStart out
      | Millis t \<Rightarrow>
          scan_reviews s e rs (if t \<ge> s then True else anyGeStart)
            (if t \<ge> s \<and> t \<le> e then out @ [r] else out))"

definition reviews_url :: "jsstring \<Rightarrow> jsstring \<Rightarrow> jsstring" where
  "reviews_url accountId locationId =
     lit ''https://mybusiness.googleapis.com/v4/accounts/'' @ accountId
     @ lit ''/locations/'' @ locationId @ lit ''/reviews''"

fun listReviews_loop ::
  "nat \<Rightarrow> (jsstring \<Rightarrow> nat \<Rightarrow> reviews_page outcome) \<Rightarrow> jsstring \<Rightarrow> int \<Rightarrow> int
   \<Rightarrow> jsstring \<Rightarrow> nat \<Rightarrow> review list \<Rightarrow> jsstring list
   \<Rightarrow> (jserror + review list \<times> jsstring list) option"
where
  "listReviews_loop 0 net u s e pageToken pagesBelowCutoff out requested = None"
| "listReviews_loop (Suc fuel) net u s e pageToken pagesBelowCutoff out requested =
     (case getJson u (net pageToken) of
        Inl err \<Rightarrow> Some (Inl err)
      | Inr j \<Rightarrow>
          if length (reviews j) = 0 then Some (Inr (out, requested @ [pageToken]))
          else
            (case scan_reviews s e (reviews j) False out of
               (anyGeStart, out') \<Rightarrow>
                 let below = (if \<not> anyGeStart then pagesBelowCutoff + 1 else 0) in
                 if below \<ge> 2 then Some (Inr (out', requested @ [pageToken]))
                 else if nextPageToken j \<noteq> []
                 then listReviews_loop fuel net u s e (nextPageToken j) below out'
                        (requested @ [pageToken])
                 else Some (Inr (out', requested @ [pageToken]))))"

definition listReviewsForLocation ::
  "nat \<Rightarrow> (jsstring \<Rightarrow> nat \<Rightarrow> reviews_page outcome) \<Rightarrow> jsstring \<Rightarrow> jsstring \<Rightarrow> int \<Rightarrow> int
   \<Rightarrow> (jserror + review list \<times> jsstring list) option"
where
  "listReviewsForLocation fuel net accountId locationId startBerlin endBerlin =
     listReviews_loop fuel net (reviews_url accountId locationId) startBerlin endBerlin
       [] 0 [] []"

text \<open>
  The words of the specification: a review inside the window, a review created at or after
  the window's start, a page without any such review.  A feed of pages is a list of pages;
  \<open>feed_net\<close> is the review source that serves it: page \<open>k\<close> (counted from 0) is asked for
  with the token \<open>page_token k\<close> (the empty token for the first page) and names the token
  of the next page unless it is the last.  \<open>stops_at\<close> is the stop condition at page \<open>k\<close>:
  the page is empty, or it is the last one (no cursor), or it and the page before it are
  both without a review at or after the start (the counter, which is 1 after such a page
  and 0 after any other, reaches 2).
\<close>

definition in_window :: "int \<Rightarrow> int \<Rightarrow> review \<Rightarrow> bool" where
  "in_window s e r = (case r_createTime r of Millis t \<Rightarrow> s \<le> t \<and> t \<le> e | _ \<Rightarrow> False)"

definition at_or_after :: "int \<Rightarrow> review \<Rightarrow> bool" where
  "at_or_after s r = (case r_createTime r of Millis t \<Rightarrow> s \<le> t | _ \<Rightarrow> False)"

definition below_cutoff :: "int \<Rightarrow> review list \<Rightarrow> bool" where
  "below_cutoff s p = (\<not> list_ex (at_or_after s) p)"

definition page_token :: "nat \<Rightarrow> jsstring" where
  "page_token k = replicate k 0x70"

definition feed_net :: "review list list \<Rightarrow> jsstring \<Rightarrow> nat \<Rightarrow> reviews_page outcome" where
  "feed_net pages tok attempt =
     (let k = length tok in
      if k < length pages
      then Responded \<lparr>status = 200, statusText = lit ''OK'', bodyText = Inr [],
             bodyJson = Inr \<lparr>reviews = pages ! k,
               nextPageToken = (if Suc k < length pages then page_token (Suc k) else [])\<rparr>\<rparr>
      else Responded \<lparr>status = 404, statusText = lit ''Not Found'', bodyText = Inr [],
             bodyJson = Inl (Thrown SyntaxError [])\<rparr>)"

definition stops_at :: "int \<Rightarrow> review list list \<Rightarrow> nat \<Rightarrow> bool" where
  "stops_at s pages k =
     (pages ! k = [] \<or> Suc k = length pages
      \<or> (0 < k \<and> below_cutoff s (pages ! (k - 1)) \<and> below_cutoff s (pages ! k)))"

lemma scan_reviews_eq:
  "scan_reviews s e rs any out =
     (any \<or> list_ex (at_or_after s) rs, out @ filter (in_window s e) rs)"
  by (induction rs arbitrary: any out)
    (auto simp add: at_or_after_def in_window_def split: ctime.splits)

lemma getJson_feed:
  "k < length pages \<Longrightarrow>
   getJson u (feed_net pages (page_token k)) =
     Inr \<lparr>reviews = pages ! k,
          nextPageToken = (if Suc k < length pages then page_token (Suc k) else [])\<rparr>"
  by (simp add: getJson_def requestWithRetry_closed upt_0_4 feed_net_def page_token_def
      retryable_def outcome_result_def ok_def Let_def)

lemma find_upt_from_Some:
  "find P [i..<n] = Some k \<longleftrightarrow> i \<le> k \<and> k < n \<and> P k \<and> (\<forall>j. i \<le> j \<and> j < k \<longrightarrow> \<not> P j)"
proof (induction "n - i" arbitrary: i)
  case 0
  then show ?case by auto
next
  case (Suc d)
  then have lt: "i < n" by simp
  then have upt: "[i..<n] = i # [Suc i..<n]" by (simp add: upt_conv_Cons)
  have IH: "find P [Suc i..<n] = Some k \<longleftrightarrow>
      Suc i \<le> k \<and> k < n \<and> P k \<and> (\<forall>j. Suc i \<le> j \<and> j < k \<longrightarrow> \<not> P j)"
    using Suc by (intro Suc(1)) simp
  show ?case
  proof (cases "P i")
    case True
    then show ?thesis using lt upt by (auto simp add: not_less)
  next
    case False
    have "(\<forall>j. Suc i \<le> j \<and> j < k \<longrightarrow> \<not> P j) \<longleftrightarrow> (\<forall>j. i \<le> j \<and> j < k \<longrightarrow> \<not> P j)"
    proof (intro iffI allI impI)
      fix j assume a: "\<forall>j. Suc i \<le> j \<and> j < k \<longrightarrow> \<not> P j" and b: "i \<le> j \<and> j < k"
      show "\<not> P j"
      proof (cases "j = i")
        case True
        then show ?thesis using False by simp
      next
        case F: False
        then have "Suc i \<le> j" using b by simp
        then show ?thesis using a b by blast
      qed
    next
      fix j assume a: "\<forall>j. i \<le> j \<and> j < k \<longrightarrow> \<not> P j" and b: "Suc i \<le> j \<and> j < k"
      then have "i \<le> j \<and> j < k" by simp
      then show "\<not> P j" using a by blast
    qed
    moreover have "Suc i \<le> k \<and> P k \<longleftrightarrow> i \<le> k \<and> P k"
      using False by (auto simp add: Suc_le_eq le_less)
    ultimately show ?thesis using False upt IH by auto
  qed
qed


lemma page_token_nonempty: "page_token (Suc k) \<noteq> []"
  by (simp add: page_token_def)

lemma listReviews_loop_feed:
  assumes "i < length pages"
    and "find (stops_at s pages) [i..<length pages] = Some k"
    and "below = (if 0 < i \<and> below_cutoff s (pages ! (i - 1)) then 1 else 0)"
    and "length pages - i \<le> fuel"
  shows "listReviews_loop fuel (feed_net pages) u s e (page_token i) below out req =
     Some (Inr (out @ concat (map (filter (in_window s e)) (take (Suc k - i) (drop i pages))),
                req @ map page_token [i..<Suc k]))"
  using assms
proof (induction fuel arbitrary: i below out req)
  case 0
  then show ?case by simp
next
  case (Suc fuel)
  define p where "p = pages ! i"
  have k: "i \<le> k" "k < length pages" "stops_at s pages k"
    "\<forall>j. i \<le> j \<and> j < k \<longrightarrow> \<not> stops_at s pages j"
    using Suc.prems(2) by (simp_all add: find_upt_from_Some)
  have gj: "getJson u (feed_net pages (page_token i)) =
     Inr \<lparr>reviews = p,
          nextPageToken = (if Suc i < length pages then page_token (Suc i) else [])\<rparr>"
    unfolding p_def using Suc.prems(1) by (rule getJson_feed)
  have stop_here: "stops_at s pages i \<Longrightarrow> k = i"
    using k(1,4) by (cases "i = k") auto
  have one: "take (Suc i - i) (drop i pages) = [p]"
    using Suc.prems(1) by (simp add: p_def take_Suc_conv_app_nth Suc_diff_le)
  have rhs_here: "k = i \<Longrightarrow>
      out @ concat (map (filter (in_window s e)) (take (Suc k - i) (drop i pages)))
        = out @ filter (in_window s e) p
      \<and> req @ map page_token [i..<Suc k] = req @ [page_token i]"
    using one by simp
  show ?case
  proof (cases "p = []")
    case True
    then have "stops_at s pages i" by (simp add: stops_at_def p_def)
    then have "k = i" by (rule stop_here)
    then show ?thesis using rhs_here True gj by simp
  next
    case False
    define below' :: nat where "below' = (if below_cutoff s p then below + 1 else 0)"
    have sc: "scan_reviews s e p False out = (\<not> below_cutoff s p, out @ filter (in_window s e) p)"
      by (simp add: scan_reviews_eq below_cutoff_def)
    define c where "c \<longleftrightarrow> 0 < i \<and> below_cutoff s (pages ! (i - 1))"
    have below_eq: "below = (if c then 1 else 0)"
      using Suc.prems(3) unfolding c_def .
    have bcases: "below = 0 \<or> below = 1"
      by (cases c) (simp_all add: below_eq)
    show ?thesis
    proof (cases "below' \<ge> 2")
      case True
      then have bp: "below_cutoff s p" and b1: "below = 1"
        using bcases by (auto simp add: below'_def split: if_splits)
      have c by (rule ccontr) (use b1 in \<open>simp add: below_eq\<close>)
      then have "stops_at s pages i"
        using bp unfolding stops_at_def p_def c_def by blast
      then have "k = i" by (rule stop_here)
      then show ?thesis using rhs_here False gj sc True by (simp add: below'_def)
    next
      case nb: False
      show ?thesis
      proof (cases "Suc i < length pages")
        case False
        then have "stops_at s pages i" using Suc.prems(1) by (simp add: stops_at_def)
        then have "k = i" by (rule stop_here)
        then show ?thesis using rhs_here \<open>p \<noteq> []\<close> gj sc nb False by (simp add: below'_def)
      next
        case True
        have "\<not> (c \<and> below_cutoff s p)"
        proof
          assume a: "c \<and> below_cutoff s p"
          then have "below = 1" by (simp add: below_eq)
          then have "below' = 2" using a by (simp add: below'_def)
          with nb show False by simp
        qed
        then have ns: "\<not> stops_at s pages i"
          using \<open>p \<noteq> []\<close> True unfolding stops_at_def p_def c_def by auto
        then have ik: "Suc i \<le> k" using k(1,3) by (cases "i = k") auto
        have f': "find (stops_at s pages) [Suc i..<length pages] = Some k"
          using k ik by (auto simp add: find_upt_from_Some)
        have b': "below' = (if 0 < Suc i \<and> below_cutoff s (pages ! (Suc i - 1)) then 1 else 0)"
        proof (cases "below_cutoff s p")
          case True
          then have "below' = below + 1" by (simp add: below'_def)
          then have "below' = 1" using nb bcases by auto
          then show ?thesis using True by (simp add: p_def)
        next
          case False
          then show ?thesis by (simp add: below'_def p_def)
        qed
        have IH: "listReviews_loop fuel (feed_net pages) u s e (page_token (Suc i)) below'
            (out @ filter (in_window s e) p) (req @ [page_token i]) =
          Some (Inr ((out @ filter (in_window s e) p)
                       @ concat (map (filter (in_window s e))
                           (take (Suc k - Suc i) (drop (Suc i) pages))),
                     (req @ [page_token i]) @ map page_token [Suc i..<Suc k]))"
          using True f' b' Suc.prems(4) by (intro Suc.IH) simp_all
        have d: "take (Suc k - i) (drop i pages) = p # take (Suc k - Suc i) (drop (Suc i) pages)"
        proof -
          have "drop i pages = p # drop (Suc i) pages"
            using Suc.prems(1) by (simp add: p_def Cons_nth_drop_Suc)
          moreover have "Suc k - i = Suc (Suc k - Suc i)" using ik by simp
          ultimately show ?thesis by simp
        qed
        have u: "[i..<Suc k] = i # [Suc i..<Suc k]" using ik by (simp add: upt_conv_Cons)
        have step: "listReviews_loop (Suc fuel) (feed_net pages) u s e (page_token i) below out req
            = listReviews_loop fuel (feed_net pages) u s e (page_token (Suc i)) below'
                (out @ filter (in_window s e) p) (req @ [page_token i])"
          using gj sc nb True \<open>p \<noteq> []\<close>
          by (simp add: below'_def [symmetric] page_token_nonempty)
        have rhs: "out @ concat (map (filter (in_window s e)) (take (Suc k - i) (drop i pages)))
            = (out @ filter (in_window s e) p)
                @ concat (map (filter (in_window s e))
                    (take (Suc k - Suc i) (drop (Suc i) pages)))"
          unfolding d by simp
        have rq: "req @ map page_token [i..<Suc k]
            = (req @ [page_token i]) @ map page_token [Suc i..<Suc k]"
          unfolding u by simp
        show ?thesis by (simp only: step IH rhs rq)
      qed
    qed
  qed
qed


lemma stops_at_last: "pages \<noteq> [] \<Longrightarrow> stops_at s pages (length pages - 1)"
  by (cases pages) (simp_all add: stops_at_def)

lemma first_stop_exists:
  assumes "pages \<noteq> []"
  shows "\<exists>k. find (stops_at s pages) [0..<length pages] = Some k"
proof (cases "find (stops_at s pages) [0..<length pages]")
  case None
  then have "\<not> stops_at s pages (length pages - 1)"
    using assms by (simp add: find_upt_None)
  with stops_at_last [OF assms] show ?thesis by simp
next
  case (Some k)
  then show ?thesis by blast
qed

lemma listReviewsForLocation_feed:
  assumes "find (stops_at s pages) [0..<length pages] = Some k" "length pages \<le> fuel"
  shows "listReviewsForLocation fuel (feed_net pages) accountId locationId s e =
     Some (Inr (concat (map (filter (in_window s e)) (take (Suc k) pages)),
                map page_token [0..<Suc k]))"
proof -
  have "0 < length pages" using assms(1) by (auto simp add: find_upt_Some)
  then have "listReviews_loop fuel (feed_net pages) (reviews_url accountId locationId) s e
      (page_token 0) 0 [] [] =
     Some (Inr ([] @ concat (map (filter (in_window s e)) (take (Suc k - 0) (drop 0 pages))),
                [] @ map page_token [0..<Suc k]))"
    using assms by (intro listReviews_loop_feed) simp_all
  then show ?thesis by (simp add: listReviewsForLocation_def page_token_def)
qed

text \<open>
  C3.  On every feed of pages, given fuel for all of them, the harvester returns, and it
  has asked for exactly the pages up to the first page at which the stop condition holds:
  an empty page, a page without cursor, or the second of two consecutive pages without a
  review created at or after the window's start.  What it returns are the reviews of these
  pages that lie in the window, in feed order.  On a feed of 5 pages whose pages 3 and 4
  have no review at or after the start, it has stopped when page 4 is done: at most 4
  pages are asked for and page 5 never is; it asks for exactly pages 1 to 4 when no page
  before the fourth stops it (pages 1 to 4 not empty, page 2 with a review at or after
  the start).
\<close>

theorem listReviewsForLocation_stops:
  assumes "pages \<noteq> []" and "length pages \<le> fuel"
  shows "(\<exists>k<length pages. stops_at s pages k \<and> (\<forall>j<k. \<not> stops_at s pages j)
           \<and> listReviewsForLocation fuel (feed_net pages) accountId locationId s e
               = Some (Inr (concat (map (filter (in_window s e)) (take (Suc k) pages)),
                            map page_token [0..<Suc k])))
       \<and> (length pages = 5 \<and> below_cutoff s (pages ! 2) \<and> below_cutoff s (pages ! 3)
           \<longrightarrow> (\<exists>out req.
                 listReviewsForLocation fuel (feed_net pages) accountId locationId s e
                   = Some (Inr (out, req))
                 \<and> length req \<le> 4 \<and> page_token 4 \<notin> set req
                 \<and> ((\<forall>i<4. pages ! i \<noteq> []) \<and> \<not> below_cutoff s (pages ! 1)
                      \<longrightarrow> req = map page_token [0..<4])))"
proof -
  from first_stop_exists [OF assms(1)] obtain k
    where f: "find (stops_at s pages) [0..<length pages] = Some k" ..
  then have k: "k < length pages" "stops_at s pages k" "\<forall>j<k. \<not> stops_at s pages j"
    by (simp_all add: find_upt_Some)
  have run: "listReviewsForLocation fuel (feed_net pages) accountId locationId s e
      = Some (Inr (concat (map (filter (in_window s e)) (take (Suc k) pages)),
                   map page_token [0..<Suc k]))"
    using f assms(2) by (rule listReviewsForLocation_feed)
  have first: "\<exists>k<length pages. stops_at s pages k \<and> (\<forall>j<k. \<not> stops_at s pages j)
           \<and> listReviewsForLocation fuel (feed_net pages) accountId locationId s e
               = Some (Inr (concat (map (filter (in_window s e)) (take (Suc k) pages)),
                            map page_token [0..<Suc k]))"
    using k run by blast
  have five: "\<exists>out req.
                 listReviewsForLocation fuel (feed_net pages) accountId locationId s e
                   = Some (Inr (out, req))
                 \<and> length req \<le> 4 \<and> page_token 4 \<notin> set req
                 \<and> ((\<forall>i<4. pages ! i \<noteq> []) \<and> \<not> below_cutoff s (pages ! 1)
                      \<longrightarrow> req = map page_token [0..<4])"
    if a: "length pages = 5 \<and> below_cutoff s (pages ! 2) \<and> below_cutoff s (pages ! 3)"
  proof -
    have "stops_at s pages 3" using a by (simp add: stops_at_def)
    then have k3: "k \<le> 3" using k(3) by (meson not_le)
    have inj: "page_token 4 \<notin> set (map page_token [0..<Suc k])"
    proof
      assume "page_token 4 \<in> set (map page_token [0..<Suc k])"
      then have "page_token 4 \<in> page_token ` {0..<Suc k}" by (simp only: set_map set_upt)
      then obtain j where "j \<in> {0..<Suc k}" "page_token 4 = page_token j" by (rule imageE)
      then have "j < Suc k" "page_token j = page_token 4" by (simp_all del: atLeastLessThanSuc_atLeastAtMost)
      then have "length (page_token j) = length (page_token 4)" by simp
      then have "j = 4" by (simp add: page_token_def)
      with \<open>j < Suc k\<close> k3 show False by simp
    qed
    have exact: "k = 3" if b: "(\<forall>i<4. pages ! i \<noteq> []) \<and> \<not> below_cutoff s (pages ! 1)"
    proof -
      have "\<not> stops_at s pages j" if "j < 3" for j
      proof -
        from that have "j = 0 \<or> j = 1 \<or> j = 2" by auto
        then show ?thesis using a b by (auto simp add: stops_at_def)
      qed
      then have "\<not> k < 3" using k(2) by blast
      with k3 show ?thesis by simp
    qed
    have len: "length (map page_token [0..<Suc k]) \<le> 4"
      using k3 by (simp del: upt_Suc)
    have ex: "(\<forall>i<4. pages ! i \<noteq> []) \<and> \<not> below_cutoff s (pages ! 1)
        \<longrightarrow> map page_token [0..<Suc k] = map page_token [0..<4]"
    proof
      assume "(\<forall>i<4. pages ! i \<noteq> []) \<and> \<not> below_cutoff s (pages ! 1)"
      then have "k = 3" by (rule exact)
      then have "Suc k = 4" by simp
      then show "map page_token [0..<Suc k] = map page_token [0..<4]" by (simp only:)
    qed
    from run len inj ex show ?thesis by blast
  qed
  from first five show ?thesis by blast
qed

text \<open>A feed of five pages, for the window from 1000 to 2000.\<close>

definition rev_at :: "int \<Rightarrow> review" where
  "rev_at t = \<lparr>r_name = [], r_createTime = Millis t, r_starRating = JUndefined,
              r_displayName = [], r_profileName = [], r_comment = []\<rparr>"

definition feed5 :: "review list list" where
  "feed5 = [[rev_at 1500], [rev_at 1200, rev_at 900], [rev_at 800], [rev_at 700], [rev_at 1100]]"

theorem listReviewsForLocation_stops_witness:
  "feed5 \<noteq> [] \<and> length feed5 \<le> 5
   \<and> listReviewsForLocation 5 (feed_net feed5) [] [] 1000 2000
       = Some (Inr ([rev_at 1500, rev_at 1200], map page_token [0..<4]))"
proof -
  have h: "feed5 \<noteq> []" "length feed5 \<le> 5" by (simp_all add: feed5_def)
  have b: "length feed5 = 5 \<and> below_cutoff 1000 (feed5 ! 2) \<and> below_cutoff 1000 (feed5 ! 3)"
    by (simp add: feed5_def below_cutoff_def at_or_after_def rev_at_def)
  have c: "(\<forall>i<4. feed5 ! i \<noteq> []) \<and> \<not> below_cutoff 1000 (feed5 ! 1)"
    by (simp add: feed5_def below_cutoff_def at_or_after_def rev_at_def less_Suc_eq
        eval_nat_numeral)
  from listReviewsForLocation_stops [OF h, of 1000 "[]" "[]" 2000] b c
  obtain out where o: "listReviewsForLocation 5 (feed_net feed5) [] [] 1000 2000
      = Some (Inr (out, map page_token [0..<4]))" by blast
  from listReviewsForLocation_stops [OF h, of 1000 "[]" "[]" 2000]
  obtain k where k: "k < length feed5"
    "listReviewsForLocation 5 (feed_net feed5) [] [] 1000 2000
       = Some (Inr (concat (map (filter (in_window 1000 2000)) (take (Suc k) feed5)),
                    map page_token [0..<Suc k]))" by blast
  from o k(2) have "length (map page_token [0..<Suc k]) = length (map page_token [0..<4])"
    by simp
  then have "k = 3" by simp
  then have "out = [rev_at 1500, rev_at 1200]"
    using o k(2) by (simp add: feed5_def in_window_def rev_at_def eval_nat_numeral)
  with o h show ?thesis by simp
qed



section \<open>The time window\<close>

text \<open>
  Times are instants, in milliseconds since the epoch, as \<^verbatim>\<open>DateTime.toMillis()\<close> gives
  them.  The zone \<^verbatim>\<open>TZ = "Europe/Berlin"\<close> follows the rule in force since 1996, which the
  time zone database also applies to all later years: the offset is +01:00, and +02:00
  from 01:00 UTC on the last Sunday of March to 01:00 UTC on the last Sunday of October.
  \<open>days_from_civil\<close> and \<open>civil_from_days\<close> convert between a proleptic Gregorian date and
  the number of days since 1970-01-01 (a Thursday); \<open>berlin_dst k\<close> tells whether summer
  time holds during the 24 hours that start at 01:00 UTC of day \<open>k\<close>; \<open>zone_offset\<close> is
  \<^verbatim>\<open>zone.offset(ts)\<close>, in minutes.
\<close>

definition days_from_civil :: "int \<Rightarrow> int \<Rightarrow> int \<Rightarrow> int" where
  "days_from_civil y m d =
     (let y' = (if m \<le> 2 then y - 1 else y);
          era = y' div 400;
          yoe = y' - era * 400;
          doy = (153 * (m + (if m > 2 then -3 else 9)) + 2) div 5 + d - 1;
          doe = yoe * 365 + yoe div 4 - yoe div 100 + doy
      in era * 146097 + doe - 719468)"

definition civil_from_days :: "int \<Rightarrow> int \<times> int \<times> int" where
  "civil_from_days z =
     (let z' = z + 719468;
          era = z' div 146097;
          doe = z' - era * 146097;
          yoe = (doe - doe div 1460 + doe div 36524 - doe div 146096) div 365;
          doy = doe - (365 * yoe + yoe div 4 - yoe div 100);
          mp = (5 * doy + 2) div 153;
          d = doy - (153 * mp + 2) div 5 + 1;
          m = (if mp < 10 then mp + 3 else mp - 9)
      in (yoe + era * 400 + (if m \<le> 2 then 1 else 0), m, d))"

definition last_sunday :: "int \<Rightarrow> int \<Rightarrow> int" where
  "last_sunday y m = (let d31 = days_from_civil y m 31 in d31 - (d31 + 4) mod 7)"

definition berlin_dst :: "int \<Rightarrow> bool" where
  "berlin_dst k = (case civil_from_days k of (y, m, d) \<Rightarrow>
                     last_sunday y 3 \<le> k \<and> k < last_sunday y 10)"

definition zone_offset :: "int \<Rightarrow> int" where
  "zone_offset u = (if berlin_dst ((u - 3600000) div 86400000) then 120 else 60)"

text \<open>
  A Luxon \<^verbatim>\<open>DateTime\<close> in this zone is its instant \<^verbatim>\<open>ts\<close> and its offset \<^verbatim>\<open>o\<close>; its
  calendar fields \<^verbatim>\<open>c\<close> are the UTC fields of \<open>ts + o * 60000\<close>, so that number
  (\<open>local_ts\<close>) stands for them: the local day is \<open>local_ts div 86400000\<close>, the local time of
  day is \<open>local_ts mod 86400000\<close>.  The operations are Luxon's:
  \<^item> \<^verbatim>\<open>fixOffset(localTS, o, tz)\<close> turns local fields and a guessed offset into an
    instant, as in Luxon's source;
  \<^item> \<^verbatim>\<open>plus({days: n})\<close> and \<^verbatim>\<open>minus({days: n})\<close> change the day field and call
    \<^verbatim>\<open>fixOffset\<close> with the old offset;
  \<^item> \<^verbatim>\<open>startOf("day")\<close> sets hour, minute, second and millisecond to 0 and calls
    \<^verbatim>\<open>fixOffset\<close>;
  \<^item> \<^verbatim>\<open>minus(n)\<close> with a number subtracts \<open>n\<close> milliseconds from the instant and
    reads the offset there;
  \<^item> \<^verbatim>\<open>endOf("day")\<close> is \<^verbatim>\<open>plus({days: 1}).startOf("day").minus(1)\<close>.
\<close>

record datetime =
  ts :: int
  off :: int

definition local_ts :: "datetime \<Rightarrow> int" where
  "local_ts dt = ts dt + off dt * 60000"

definition fixOffset :: "int \<Rightarrow> int \<Rightarrow> int \<times> int" where
  "fixOffset localTS o1 =
     (let utcGuess = localTS - o1 * 60 * 1000;
          o2 = zone_offset utcGuess
      in if o1 = o2 then (utcGuess, o1)
         else let utcGuess' = utcGuess - (o2 - o1) * 60 * 1000;
                  o3 = zone_offset utcGuess'
              in if o2 = o3 then (utcGuess', o2)
                 else (localTS - min o2 o3 * 60 * 1000, max o2 o3))"

definition now_in_zone :: "int \<Rightarrow> datetime" where
  "now_in_zone now = \<lparr>ts = now, off = zone_offset now\<rparr>"

definition plus_days :: "datetime \<Rightarrow> int \<Rightarrow> datetime" where
  "plus_days dt n =
     (case fixOffset (local_ts dt + n * 86400000) (off dt) of (t, o') \<Rightarrow> \<lparr>ts = t, off = o'\<rparr>)"

definition minus_days :: "datetime \<Rightarrow> int \<Rightarrow> datetime" where
  "minus_days dt n = plus_days dt (- n)"

definition minus_millis :: "datetime \<Rightarrow> int \<Rightarrow> datetime" where
  "minus_millis dt n =
     (case fixOffset (local_ts dt) (off dt) of
        (t, o') \<Rightarrow> \<lparr>ts = t - n, off = zone_offset (t - n)\<rparr>)"

definition startOf_day :: "datetime \<Rightarrow> datetime" where
  "startOf_day dt =
     (case fixOffset (local_ts dt div 86400000 * 86400000) (off dt) of
        (t, o') \<Rightarrow> \<lparr>ts = t, off = o'\<rparr>)"

definition endOf_day :: "datetime \<Rightarrow> datetime" where
  "endOf_day dt = minus_millis (startOf_day (plus_days dt 1)) 1"

text \<open>
  \<^verbatim>\<open>
  function getYesterdayRangeBerlin() {
    const now = DateTime.now().setZone(TZ);
    const y = now.minus({ days: 1 });
    const start = y.startOf("day");
    const end = y.endOf("day");
    return { start, end };
  }
  \<close>
  The current instant \<^verbatim>\<open>DateTime.now()\<close> is the argument.
\<close>

definition getYesterdayRangeBerlin :: "int \<Rightarrow> datetime \<times> datetime" where
  "getYesterdayRangeBerlin now =
     (let now' = now_in_zone now;
          y = minus_days now' 1
      in (startOf_day y, endOf_day y))"



lemma div_eqI_int:
  fixes a b q :: int
  assumes "0 < b" "q * b \<le> a" "a < (q + 1) * b"
  shows "a div b = q"
proof -
  have "(a - q * b) div b = 0"
    using assms by (intro div_pos_pos_trivial) (simp_all add: algebra_simps)
  moreover have "a div b = ((a - q * b) + q * b) div b" by simp
  moreover have "((a - q * b) + q * b) div b = q + (a - q * b) div b"
    using assms(1) by (intro div_mult_self1) simp
  ultimately show ?thesis by simp
qed


lemma day_index_before_midnight:
  "(d * 86400000 - 3600000 - 3600000) div 86400000 = d - (1::int)"
  "(d * 86400000 - 7200000 - 3600000) div 86400000 = d - (1::int)"
  "(d * 86400000 - 3600000 - 1 - 3600000) div 86400000 = d - (1::int)"
  "(d * 86400000 - 7200000 - 1 - 3600000) div 86400000 = d - (1::int)"
  by (rule div_eqI_int; simp)+

lemma hole_same_day:
  fixes L :: int
  assumes "(L - 7200000) div 86400000 \<noteq> (L - 10800000) div 86400000"
  shows "(L + 3600000) div 86400000 = L div 86400000"
proof -
  define q where "q = L div 86400000"
  define r where "r = L mod 86400000"
  have L: "L = q * 86400000 + r" by (simp add: q_def r_def)
  have r: "0 \<le> r" "r < 86400000" by (simp_all add: r_def)
  have a: "(L - 7200000) div 86400000 = (if 7200000 \<le> r then q else q - 1)"
    using r by (intro div_eqI_int) (auto simp add: L)
  have b: "(L - 10800000) div 86400000 = (if 10800000 \<le> r then q else q - 1)"
    using r by (intro div_eqI_int) (auto simp add: L)
  from assms a b have "7200000 \<le> r \<and> r < 10800000" by (auto split: if_splits)
  then have "(L + 3600000) div 86400000 = q"
    by (intro div_eqI_int) (auto simp add: L)
  then show ?thesis by (simp add: q_def)
qed

lemma zone_offset_range: "zone_offset u = 60 \<or> zone_offset u = 120"
  by (simp add: zone_offset_def)

lemma zone_offset_same_day:
  "(u - 3600000) div 86400000 = (v - 3600000) div 86400000 \<Longrightarrow> zone_offset u = zone_offset v"
  by (simp add: zone_offset_def)

lemma fixOffset_midnight:
  assumes "o1 = 60 \<or> o1 = 120"
  shows "fixOffset (d * 86400000) o1 =
           (d * 86400000 - zone_offset (d * 86400000 - 3600000) * 60000,
            zone_offset (d * 86400000 - 3600000))"
proof -
  define z where "z = zone_offset (d * 86400000 - 3600000)"
  have z2: "zone_offset (d * 86400000 - 7200000) = z"
    unfolding z_def by (rule zone_offset_same_day) (simp only: day_index_before_midnight)
  have zr: "z = 60 \<or> z = 120" unfolding z_def by (rule zone_offset_range)
  from assms show ?thesis
  proof
    assume o1: "o1 = 60"
    from zr show ?thesis
    proof
      assume "z = 60"
      then show ?thesis using o1 z_def by (simp add: fixOffset_def)
    next
      assume "z = 120"
      then show ?thesis using o1 z_def z2 by (simp add: fixOffset_def)
    qed
  next
    assume o1: "o1 = 120"
    from zr show ?thesis
    proof
      assume "z = 60"
      then show ?thesis using o1 z_def z2 by (simp add: fixOffset_def)
    next
      assume "z = 120"
      then show ?thesis using o1 z_def z2 by (simp add: fixOffset_def)
    qed
  qed
qed

lemma fixOffset_any:
  assumes o1: "o1 = 60 \<or> o1 = 120" and f: "fixOffset L o1 = (t, o')"
  shows "(o' = 60 \<or> o' = 120) \<and> (t + o' * 60000) div 86400000 = L div 86400000"
proof -
  define a where "a = zone_offset (L - o1 * 60000)"
  define b where "b = zone_offset (L - a * 60000)"
  have ar: "a = 60 \<or> a = 120" unfolding a_def by (rule zone_offset_range)
  have br: "b = 60 \<or> b = 120" unfolding b_def by (rule zone_offset_range)
  have unf: "fixOffset L o1 =
      (if o1 = a then (L - o1 * 60000, o1)
       else if a = b then (L - a * 60000, a)
       else (L - min a b * 60000, max a b))"
    by (simp add: fixOffset_def Let_def a_def b_def algebra_simps)
  show ?thesis
  proof (cases "o1 = a")
    case True
    then show ?thesis using f o1 unf by auto
  next
    case False
    show ?thesis
    proof (cases "a = b")
      case True
      then show ?thesis using f ar unf False by auto
    next
      case ab: False
      have "b = o1" using False ab o1 ar br by auto
      have res: "t = L - 3600000" "o' = 120"
        using f unf False ab ar br by (auto simp add: min_def max_def)
      have "zone_offset (L - 3600000) \<noteq> zone_offset (L - 7200000)"
      proof (cases "o1 = 60")
        case True
        then have "a = 120" using False ar by auto
        then show ?thesis using a_def b_def True \<open>b = o1\<close> by simp
      next
        case F: False
        then have "o1 = 120" "a = 60" using o1 False ar by auto
        then show ?thesis using a_def b_def \<open>b = o1\<close> by simp
      qed
      then have "(L - 3600000 - 3600000) div 86400000 \<noteq> (L - 7200000 - 3600000) div 86400000"
        using zone_offset_same_day by blast
      then have "(L + 3600000) div 86400000 = L div 86400000"
        by (intro hole_same_day) simp
      then show ?thesis using res by simp
    qed
  qed
qed


text \<open>The local calendar day of an instant, as a day number.\<close>

definition local_day :: "int \<Rightarrow> int" where
  "local_day now = (now + zone_offset now * 60000) div 86400000"

lemma plus_days_day:
  assumes "off dt = 60 \<or> off dt = 120"
  shows "(off (plus_days dt n) = 60 \<or> off (plus_days dt n) = 120)
       \<and> local_ts (plus_days dt n) div 86400000 = local_ts dt div 86400000 + n"
proof -
  obtain t o' where f: "fixOffset (local_ts dt + n * 86400000) (off dt) = (t, o')"
    by (cases "fixOffset (local_ts dt + n * 86400000) (off dt)")
  from fixOffset_any [OF assms f]
  have "(o' = 60 \<or> o' = 120)
      \<and> (t + o' * 60000) div 86400000 = (local_ts dt + n * 86400000) div 86400000" .
  moreover have "(local_ts dt + n * 86400000) div 86400000 = local_ts dt div 86400000 + n"
    by simp
  ultimately show ?thesis using f by (simp add: plus_days_def local_ts_def)
qed

lemma startOf_day_eq:
  assumes "off dt = 60 \<or> off dt = 120"
  shows "startOf_day dt =
    \<lparr>ts = local_ts dt div 86400000 * 86400000
            - zone_offset (local_ts dt div 86400000 * 86400000 - 3600000) * 60000,
     off = zone_offset (local_ts dt div 86400000 * 86400000 - 3600000)\<rparr>"
  by (simp add: startOf_day_def fixOffset_midnight [OF assms])

lemma zone_offset_at_midnight:
  assumes "z = 60 \<or> z = 120"
  shows "zone_offset (d * 86400000 - z * 60000) = zone_offset (d * 86400000 - 3600000)"
    and "zone_offset (d * 86400000 - z * 60000 - 1) = zone_offset (d * 86400000 - 3600000)"
  using assms
  by (auto intro!: zone_offset_same_day simp only: day_index_before_midnight
      mult_numeral_left_semiring_numeral numeral_times_numeral semiring_norm
      arith_simps)


text \<open>
  C1, as amended.  For every instant \<open>now\<close> the window starts at local midnight
  (00:00:00.000) and ends at local 23:59:59.999 of the calendar day before the local day
  of \<open>now\<close>, so both ends lie on that day, and each end carries the offset the zone has
  at its instant.  The start is 24 h - 1 ms before the end when both ends have the same
  offset; across the change to summer time the window is 23 h - 1 ms long, across the
  change back 25 h - 1 ms.
\<close>

theorem getYesterdayRangeBerlin_window:
  "case getYesterdayRangeBerlin now of (a, b) \<Rightarrow>
       local_ts a = (local_day now - 1) * 86400000
     \<and> local_ts b = local_day now * 86400000 - 1
     \<and> local_ts a div 86400000 = local_day now - 1
     \<and> local_ts b div 86400000 = local_day now - 1
     \<and> off a = zone_offset (ts a) \<and> off b = zone_offset (ts b)
     \<and> ts b - ts a = 86399999 + (off a - off b) * 60000
     \<and> ts b - ts a \<in> {82799999, 86399999, 89999999}"
proof -
  define n where "n = now_in_zone now"
  define y where "y = minus_days n 1"
  define d where "d = local_day now"
  have n_off: "off n = 60 \<or> off n = 120"
    unfolding n_def now_in_zone_def using zone_offset_range [of now] by simp
  have n_day: "local_ts n div 86400000 = d"
    by (simp add: n_def now_in_zone_def local_ts_def d_def local_day_def)
  have y_off: "off y = 60 \<or> off y = 120" and y_day: "local_ts y div 86400000 = d - 1"
    using plus_days_day [OF n_off, of "- 1"] n_day by (simp_all add: y_def minus_days_def)
  define zs where "zs = zone_offset ((d - 1) * 86400000 - 3600000)"
  define ze where "ze = zone_offset (d * 86400000 - 3600000)"
  have zs_r: "zs = 60 \<or> zs = 120" unfolding zs_def by (rule zone_offset_range)
  have ze_r: "ze = 60 \<or> ze = 120" unfolding ze_def by (rule zone_offset_range)
  have a: "startOf_day y = \<lparr>ts = (d - 1) * 86400000 - zs * 60000, off = zs\<rparr>"
    using startOf_day_eq [OF y_off] by (simp add: y_day zs_def)
  define p where "p = plus_days y 1"
  have p_off: "off p = 60 \<or> off p = 120" and p_day: "local_ts p div 86400000 = d"
    using plus_days_day [OF y_off, of 1] y_day by (simp_all add: p_def)
  have m: "startOf_day p = \<lparr>ts = d * 86400000 - ze * 60000, off = ze\<rparr>"
    using startOf_day_eq [OF p_off] by (simp add: p_day ze_def)
  have fm: "fixOffset (d * 86400000) ze = (d * 86400000 - ze * 60000, ze)"
    using fixOffset_midnight [OF ze_r, of d] by (simp add: ze_def)
  have ze': "zone_offset (d * 86400000 - ze * 60000 - 1) = ze"
    unfolding ze_def [symmetric] using zone_offset_at_midnight(2) [OF ze_r, of d]
    by (simp add: ze_def)
  have b: "endOf_day y = \<lparr>ts = d * 86400000 - ze * 60000 - 1, off = ze\<rparr>"
    by (simp add: endOf_day_def p_def [symmetric] m minus_millis_def local_ts_def fm ze')
  have zs': "zone_offset ((d - 1) * 86400000 - zs * 60000) = zs"
    using zone_offset_at_midnight(1) [OF zs_r, of "d - 1"] by (simp add: zs_def)
  have w: "getYesterdayRangeBerlin now =
      (\<lparr>ts = (d - 1) * 86400000 - zs * 60000, off = zs\<rparr>,
       \<lparr>ts = d * 86400000 - ze * 60000 - 1, off = ze\<rparr>)"
    by (simp add: getYesterdayRangeBerlin_def Let_def n_def [symmetric] y_def [symmetric] a b)
  have d1: "((d - 1) * 86400000) div 86400000 = d - 1" by simp
  have d2: "(d * 86400000 - 1) div 86400000 = d - 1" by (rule div_eqI_int) simp_all
  have diff: "d * 86400000 - ze * 60000 - 1 - ((d - 1) * 86400000 - zs * 60000)
      = 86399999 + (zs - ze) * 60000"
    by (simp add: algebra_simps)
  have range: "86399999 + (zs - ze) * 60000 \<in> {82799999, 86399999, 89999999}"
    using zs_r ze_r by auto
  show ?thesis
    unfolding w d_def [symmetric]
    using d1 d2 zs' ze' diff range by (simp add: local_ts_def)
qed

text \<open>
  C1, as stated, fails: at 2024-04-01 12:00 in Berlin (10:00 UTC) the day before is the
  day summer time started, and the window from 2024-03-31 00:00:00.000+01:00 to
  23:59:59.999+02:00 is 23 h - 1 ms long.
\<close>

theorem getYesterdayRangeBerlin_dst_counterexample:
  "(case getYesterdayRangeBerlin 1711965600000 of (a, b) \<Rightarrow> ts b - ts a) = 82799999
   \<and> (case getYesterdayRangeBerlin 1711965600000 of (a, b) \<Rightarrow> ts b - ts a)
       \<noteq> 24 * 3600000 - 1"
  by code_simp

text \<open>
  The window computed on 2024-10-28 11:00 in Berlin, for the day summer time ended: 25 h
  - 1 ms.
\<close>

theorem getYesterdayRangeBerlin_window_witness:
  "getYesterdayRangeBerlin 1730109600000 =
     (\<lparr>ts = 1729980000000, off = 120\<rparr>, \<lparr>ts = 1730069999999, off = 60\<rparr>)
   \<and> local_day 1730109600000 = 20024
   \<and> local_ts \<lparr>ts = 1729980000000, off = 120\<rparr> = (20024 - 1) * 86400000
   \<and> local_ts \<lparr>ts = 1730069999999, off = 60\<rparr> = 20024 * 86400000 - 1
   \<and> (1730069999999::int) - 1729980000000 = 86399999 + (120 - 60) * 60000"
proof -
  have e: "getYesterdayRangeBerlin 1730109600000 =
     (\<lparr>ts = 1729980000000, off = 120\<rparr>, \<lparr>ts = 1730069999999, off = 60\<rparr>)"
    by code_simp
  have d: "local_day 1730109600000 = 20024" by code_simp
  show ?thesis
    using getYesterdayRangeBerlin_window [of 1730109600000] e d by simp
qed



section \<open>Records and reply links\<close>

text \<open>
  The configuration table \<^verbatim>\<open>ENV\<close> (the fields the run reads after the token exchange)
  and \<^verbatim>\<open>mustEnv\<close>, which throws when a value is empty.
\<close>

record env =
  GBP_ACCOUNT_ID :: jsstring
  MAKE_REVIEWS_WEBHOOK_URL :: jsstring
  PREFILL_API_URL :: jsstring
  PREFILL_SECRET :: jsstring
  PUBLIC_APP_URL :: jsstring
  CONCURRENCY :: int
  MAKE_BATCH_SIZE :: int

definition mustEnv :: "string \<Rightarrow> jsstring \<Rightarrow> jserror + jsstring" where
  "mustEnv key v = (if v = [] then Inl (Thrown Error (lit ''Missing env: '' @ lit key)) else Inr v)"

text \<open>
  A location as \<^verbatim>\<open>listLocations\<close> returns it (an absent field is the empty string), and
  the small string helpers of \<^verbatim>\<open>main\<close>: \<^verbatim>\<open>s.split("/").pop()\<close> is the part after the
  last slash, \<^verbatim>\<open>s || null\<close> is \<open>or_null\<close>.
\<close>

record location =
  l_name :: jsstring
  l_storeCode :: jsstring
  l_title :: jsstring

definition last_segment :: "jsstring \<Rightarrow> jsstring" where
  "last_segment s = rev (takeWhile (\<lambda>c. c \<noteq> 0x2F) (rev s))"

definition or_null :: "jsstring \<Rightarrow> jsstring option" where
  "or_null s = (if s = [] then None else Some s)"

text \<open>
  \<^verbatim>\<open>createdBerlin.toFormat("dd.MM.yyyy HH:mm:ss")\<close>: the local date and time in the zone,
  with two digits for day, month, hour, minute and second and four for the year.
\<close>

definition pad2 :: "int \<Rightarrow> jsstring" where
  "pad2 n = (if n < 10 then lit ''0'' @ show_nat (nat n) else show_nat (nat n))"

definition pad4 :: "int \<Rightarrow> jsstring" where
  "pad4 n = replicate (4 - length (show_nat (nat n))) 0x30 @ show_nat (nat n)"

definition toFormat :: "int \<Rightarrow> jsstring" where
  "toFormat t =
     (let l = t + zone_offset t * 60000;
          ms = l mod 86400000
      in case civil_from_days (l div 86400000) of
           (y, m, d) \<Rightarrow>
             pad2 d @ lit ''.'' @ pad2 m @ lit ''.'' @ pad4 y @ lit '' ''
             @ pad2 (ms div 3600000) @ lit '':'' @ pad2 (ms div 60000 mod 60)
             @ lit '':'' @ pad2 (ms div 1000 mod 60))"

definition reviewed_at_of :: "ctime \<Rightarrow> jsstring" where
  "reviewed_at_of ct = (case ct of Millis t \<Rightarrow> toFormat t | _ \<Rightarrow> lit ''Invalid DateTime'')"

text \<open>
  \<^verbatim>\<open>
  function buildCommentFull(comment, reviewer, reviewedAt) {
    const base = (comment || "").trim() || "(kein Kommentar)";
    const name = (reviewer || "").trim() || "Unbekannt";
    let suffix = `\<emdash> ${name}`;
    if (reviewedAt) suffix += `, am ${reviewedAt}`;
    return `${base}\n${suffix}`;
  }
  \<close>
  The dash is U+2014, the line break U+000A.
\<close>

definition buildCommentFull :: "jsstring \<Rightarrow> jsstring \<Rightarrow> jsstring \<Rightarrow> jsstring" where
  "buildCommentFull cmt reviewer reviewedAt =
     (let base = (if trim cmt = [] then lit ''(kein Kommentar)'' else trim cmt);
          nm = (if trim reviewer = [] then lit ''Unbekannt'' else trim reviewer);
          suffix = [0x2014] @ lit '' '' @ nm;
          suffix' = (if reviewedAt \<noteq> [] then suffix @ lit '', am '' @ reviewedAt else suffix)
      in base @ [0x0A] @ suffix')"

text \<open>
  \<^verbatim>\<open>
  async function createPrefillRid(payload) {
    mustEnv("PREFILL_API_URL");
    mustEnv("PREFILL_SECRET");
    const res = await requestWithRetry(ENV.PREFILL_API_URL, { method: "POST", ... });
    const txt = await res.text();
    if (!res.ok) throw new Error(`Prefill error ${res.status}: ${txt}`);
    const j = JSON.parse(txt);
    if (!j.rid) throw new Error(`Prefill response missing rid: ${txt}`);
    return j.rid;
  }
  \<close>
  The parsed body is \<^verbatim>\<open>null\<close> (reading \<^verbatim>\<open>j.rid\<close> then throws a \<^verbatim>\<open>TypeError\<close>) or a
  value with its property \<^verbatim>\<open>rid\<close>, the empty string when the property is absent.  The
  reply-link service is the argument \<open>pnet\<close>: for a payload, what the calls of
  \<^verbatim>\<open>fetch\<close> with it do.
\<close>

datatype prefill_json = JsonNull | JsonObj jsstring

record prefill_payload =
  p_review :: jsstring
  p_rating :: jsstring
  p_reviewer :: jsstring
  p_reviewed_at :: jsstring
  p_accountId :: jsstring
  p_locationId :: jsstring
  p_reviewId :: jsstring
  p_storeCode :: jsstring
  p_locationTitle :: jsstring

definition createPrefillRid ::
  "env \<Rightarrow> (prefill_payload \<Rightarrow> nat \<Rightarrow> prefill_json outcome) \<Rightarrow> prefill_payload \<Rightarrow> jserror + jsstring"
where
  "createPrefillRid ev pnet payload =
     (case mustEnv ''PREFILL_API_URL'' (PREFILL_API_URL ev) of
        Inl e \<Rightarrow> Inl e
      | Inr _ \<Rightarrow>
     (case mustEnv ''PREFILL_SECRET'' (PREFILL_SECRET ev) of
        Inl e \<Rightarrow> Inl e
      | Inr _ \<Rightarrow>
     (case result (requestWithRetry (pnet payload)) of
        Inl e \<Rightarrow> Inl e
      | Inr res \<Rightarrow>
     (case bodyText res of
        Inl e \<Rightarrow> Inl e
      | Inr txt \<Rightarrow>
          if \<not> ok res
          then Inl (Thrown Error (lit ''Prefill error '' @ show_nat (status res) @ lit '': '' @ txt))
          else (case bodyJson res of
                  Inl e \<Rightarrow> Inl e
                | Inr JsonNull \<Rightarrow>
                    Inl (Thrown TypeError (lit ''Cannot read properties of null (reading 'rid')''))
                | Inr (JsonObj rid) \<Rightarrow>
                    if rid = [] then Inl (Thrown Error (lit ''Prefill response missing rid: '' @ txt))
                    else Inr rid)))))"

text \<open>
  \<^verbatim>\<open>e.message || String(e)\<close>: the message, or for an empty message the name of the
  error's constructor.
\<close>

definition kind_name :: "errkind \<Rightarrow> jsstring" where
  "kind_name k = (case k of Error \<Rightarrow> lit ''Error'' | TypeError \<Rightarrow> lit ''TypeError''
                  | SyntaxError \<Rightarrow> lit ''SyntaxError'')"

definition error_text :: "jserror \<Rightarrow> jsstring" where
  "error_text e = (case e of Thrown k msg \<Rightarrow> if msg \<noteq> [] then msg else kind_name k)"

text \<open>
  The record that \<^verbatim>\<open>main\<close> pushes for one review, with the fields of the
  specification's ReviewRecord.  (The later revision of the script adds four fields
  copied from the location's metadata, \<^verbatim>\<open>maps_uri\<close>, \<^verbatim>\<open>new_review_uri\<close>,
  \<^verbatim>\<open>place_id\<close> and \<^verbatim>\<open>maps_place_url\<close>, fetched fail-soft; they are left out here, and
  so is the metadata request.)
  \<^verbatim>\<open>
  let rid = ""; let smart_reply_url = ""; let prefill_error = "";
  try {
    rid = await createPrefillRid({ review: comment_full, rating: rating ? String(rating) : "", ... });
    smart_reply_url = `${ENV.PUBLIC_APP_URL.replace(/\/$/, "")}/?rid=${rid}`;
  } catch (e) {
    prefill_error = e.message || String(e);
  }
  items.push({ storeCode: storeCode || null, ..., prefill_rid: rid || null,
               smart_reply_url: smart_reply_url || null, prefill_error: prefill_error || null });
  \<close>
\<close>

record item =
  storeCode :: "jsstring option"
  locationTitle :: "jsstring option"
  locationId :: jsstring
  reviewId :: "jsstring option"
  rating :: "int option"
  reviewer :: "jsstring option"
  reviewed_at :: jsstring
  comment :: "jsstring option"
  comment_full :: jsstring
  prefill_rid :: "jsstring option"
  smart_reply_url :: "jsstring option"
  prefill_error :: "jsstring option"

text \<open>
  \<^verbatim>\<open>const rating = starRatingToInt(r.starRating)\<close>.  The review source declares the field
  as the name of an enum value, and a review holds a primitive value there (\<open>r_starRating\<close>),
  for which \<open>starRatingToInt\<close> does not throw: the branch \<open>Inl\<close> below is never taken
  (\<open>rating_of_eq\<close>).
\<close>

definition rating_of :: "review \<Rightarrow> int option" where
  "rating_of r = (case starRatingToInt (Prim (r_starRating r)) of Inr k \<Rightarrow> k | Inl e \<Rightarrow> None)"

lemma rating_of_eq: "starRatingToInt (Prim (r_starRating r)) = Inr (rating_of r)"
  by (simp add: rating_of_def starRatingToInt_def)

definition strip_slash :: "jsstring \<Rightarrow> jsstring" where
  "strip_slash s = (if s \<noteq> [] \<and> last s = 0x2F then butlast s else s)"

definition prefill_payload_of ::
  "env \<Rightarrow> jsstring \<Rightarrow> jsstring \<Rightarrow> jsstring \<Rightarrow> review \<Rightarrow> prefill_payload" where
  "prefill_payload_of ev locId sc title r =
     (let reviewId = last_segment (trim (r_name r));
          rt = rating_of r;
          rv = trim (if r_displayName r \<noteq> [] then r_displayName r else r_profileName r);
          at = reviewed_at_of (r_createTime r);
          commentClean = cleanComment (r_comment r)
      in \<lparr>p_review = buildCommentFull commentClean rv at,
          p_rating = (case rt of None \<Rightarrow> [] | Some n \<Rightarrow> show_nat (nat n)),
          p_reviewer = rv, p_reviewed_at = at, p_accountId = GBP_ACCOUNT_ID ev,
          p_locationId = locId, p_reviewId = reviewId, p_storeCode = sc,
          p_locationTitle = title\<rparr>)"

definition build_item ::
  "env \<Rightarrow> (prefill_payload \<Rightarrow> nat \<Rightarrow> prefill_json outcome) \<Rightarrow> jsstring \<Rightarrow> jsstring \<Rightarrow> jsstring
   \<Rightarrow> review \<Rightarrow> item" where
  "build_item ev pnet locId sc title r =
     (let payload = prefill_payload_of ev locId sc title r;
          (rid, url, perr) =
            (case createPrefillRid ev pnet payload of
               Inr rid \<Rightarrow> (rid, strip_slash (PUBLIC_APP_URL ev) @ lit ''/?rid='' @ rid, [])
             | Inl e \<Rightarrow> ([], [], error_text e))
      in \<lparr>storeCode = or_null sc, locationTitle = or_null title, locationId = locId,
          reviewId = or_null (p_reviewId payload),
          rating = rating_of r,
          reviewer = or_null (p_reviewer payload),
          reviewed_at = p_reviewed_at payload,
          comment = or_null (cleanComment (r_comment r)),
          comment_full = p_review payload,
          prefill_rid = or_null rid, smart_reply_url = or_null url,
          prefill_error = or_null perr\<rparr>)"

text \<open>
  The function that \<^verbatim>\<open>main\<close> hands to \<^verbatim>\<open>asyncPool\<close>, for one location: what it
  pushes to \<^verbatim>\<open>items\<close>, in order, and what it logs.  \<open>None\<close> is the worker whose harvest
  has not returned within the fuel.
  \<^verbatim>\<open>
  async (loc) => {
    const locName = (loc.name || "").trim();
    const locationId = locName.split("/").pop();
    const storeCode = (loc.storeCode || "").toString().trim();
    const locationTitle = (loc.title || "").trim();
    if (!locationId) return;
    let reviews;
    try {
      reviews = await listReviewsForLocation(accessToken, ENV.GBP_ACCOUNT_ID, locationId, start, end);
    } catch (e) {
      console.log(`- ERROR reviews ${storeCode || locationTitle || locationId}: ${e.message}`);
      return;
    }
    if (!reviews.length) return;
    console.log(`- ${storeCode || locationTitle || locationId}: ${reviews.length} review(s)`);
    for (const r of reviews) { ...; items.push({...}); await sleep(60); }
  }
  \<close>
\<close>

definition first_nonempty :: "jsstring list \<Rightarrow> jsstring" where
  "first_nonempty xs = (case filter (\<lambda>s. s \<noteq> []) xs of [] \<Rightarrow> [] | s # _ \<Rightarrow> s)"

definition main_worker ::
  "nat \<Rightarrow> env \<Rightarrow> (jsstring \<Rightarrow> jsstring \<Rightarrow> nat \<Rightarrow> reviews_page outcome)
   \<Rightarrow> (prefill_payload \<Rightarrow> nat \<Rightarrow> prefill_json outcome) \<Rightarrow> int \<Rightarrow> int \<Rightarrow> location
   \<Rightarrow> (item list \<times> jsstring list) option" where
  "main_worker fuel ev rnet pnet s e loc =
     (let locName = trim (l_name loc);
          locId = last_segment locName;
          sc = trim (l_storeCode loc);
          title = trim (l_title loc)
      in if locId = [] then Some ([], [])
         else (case listReviewsForLocation fuel (rnet locId) (GBP_ACCOUNT_ID ev) locId s e of
                 None \<Rightarrow> None
               | Some (Inl err) \<Rightarrow>
                   Some ([], [lit ''- ERROR reviews '' @ first_nonempty [sc, title, locId]
                               @ lit '': '' @ message err])
               | Some (Inr (revs, requested)) \<Rightarrow>
                   if revs = [] then Some ([], [])
                   else Some (map (build_item ev pnet locId sc title) revs,
                              [lit ''- '' @ first_nonempty [sc, title, locId] @ lit '': ''
                               @ show_nat (length revs) @ lit '' review(s)''])))"


section \<open>The concurrency pool\<close>

text \<open>
  \<^verbatim>\<open>
  async function asyncPool(limit, items, iteratorFn) {
    const ret = [];
    const executing = [];
    for (const item of items) {
      const p = Promise.resolve().then(() => iteratorFn(item));
      ret.push(p);
      if (limit <= items.length) {
        const e = p.then(() => executing.splice(executing.indexOf(e), 1));
        executing.push(e);
        if (executing.length >= limit) await Promise.race(executing);
      }
    }
    return Promise.all(ret);
  }
  \<close>
  The workers run interleaved: each one suspends at its network calls and pacing delays,
  and which of them resumes next is decided by the network.  The only state they share is
  the list \<^verbatim>\<open>items\<close>, to which a worker appends one record after each reply-link call.
  So a worker is, for the pool, the list of records it still has to push (\<open>None\<close> for a
  worker that never returns), and a state of the pool is the state of every worker
  (not started, running, finished) with the list pushed so far, each record tagged with
  the position of its location.  A step is one of:
  \<^item> the pool starts the first worker not yet started; it does so as soon as it may,
    that is when fewer than \<^verbatim>\<open>limit\<close> workers are in flight (with a limit below 1, when
    none is; with a limit above the number of locations, always);
  \<^item> a running worker pushes its next record;
  \<^item> a running worker with nothing left to push finishes.
  \<open>plan\<close> gives for every location what its worker pushes.  A run goes from the state in
  which no worker has started to the state in which all have finished.
\<close>

datatype 'r wstate = Pending | Running "'r list option" | Done

fun is_running :: "'r wstate \<Rightarrow> bool" where
  "is_running (Running w) = True"
| "is_running w = False"

definition in_flight :: "'r wstate list \<Rightarrow> nat" where
  "in_flight ws = length (filter is_running ws)"

definition can_start :: "int \<Rightarrow> 'r wstate list \<Rightarrow> bool" where
  "can_start limit ws =
     (if limit \<le> int (length ws) then int (in_flight ws) < max limit 1 else True)"

inductive pool_step ::
  "int \<Rightarrow> 'r list option list \<Rightarrow> 'r wstate list \<times> (nat \<times> 'r) list
   \<Rightarrow> 'r wstate list \<times> (nat \<times> 'r) list \<Rightarrow> bool"
  for limit :: int and plan :: "'r list option list"
where
  start:
    "k < length ws \<Longrightarrow> ws ! k = Pending \<Longrightarrow> \<forall>j<k. ws ! j \<noteq> Pending \<Longrightarrow> can_start limit ws
     \<Longrightarrow> pool_step limit plan (ws, items) (ws[k := Running (plan ! k)], items)"
| push:
    "\<not> (Pending \<in> set ws \<and> can_start limit ws) \<Longrightarrow> k < length ws
     \<Longrightarrow> ws ! k = Running (Some (r # rs))
     \<Longrightarrow> pool_step limit plan (ws, items) (ws[k := Running (Some rs)], items @ [(k, r)])"
| finish:
    "\<not> (Pending \<in> set ws \<and> can_start limit ws) \<Longrightarrow> k < length ws
     \<Longrightarrow> ws ! k = Running (Some [])
     \<Longrightarrow> pool_step limit plan (ws, items) (ws[k := Done], items)"

definition asyncPool_run :: "int \<Rightarrow> 'r list option list \<Rightarrow> (nat \<times> 'r) list \<Rightarrow> bool" where
  "asyncPool_run limit plan items \<longleftrightarrow>
     (pool_step limit plan)\<^sup>*\<^sup>* (replicate (length plan) Pending, [])
        (replicate (length plan) Done, items)"

text \<open>The records a location's worker has pushed, in the order of the list.\<close>

definition pushed_by :: "nat \<Rightarrow> (nat \<times> 'r) list \<Rightarrow> 'r list" where
  "pushed_by k items = map snd (filter (\<lambda>p. fst p = k) items)"

text \<open>
  The invariant of the pool: a worker not yet started has pushed nothing, a running worker
  has pushed the first part of its records and still holds the rest, a finished worker has
  pushed all its records; and every tag is the position of a location.
\<close>

fun wstate_ok :: "'r list option \<Rightarrow> 'r list \<Rightarrow> 'r wstate \<Rightarrow> bool" where
  "wstate_ok pl pushed Pending = (pushed = [])"
| "wstate_ok pl pushed (Running None) = (pl = None \<and> pushed = [])"
| "wstate_ok pl pushed (Running (Some todo)) = (pl = Some (pushed @ todo))"
| "wstate_ok pl pushed Done = (pl = Some pushed)"

definition pool_inv :: "'r list option list \<Rightarrow> 'r wstate list \<times> (nat \<times> 'r) list \<Rightarrow> bool" where
  "pool_inv plan st \<longleftrightarrow>
     (case st of (ws, items) \<Rightarrow>
        length ws = length plan
        \<and> (\<forall>k<length plan. wstate_ok (plan ! k) (pushed_by k items) (ws ! k))
        \<and> (\<forall>p\<in>set items. fst p < length plan))"

lemma pushed_by_append:
  "pushed_by j (items @ [(k, r)]) = (if j = k then pushed_by j items @ [r] else pushed_by j items)"
  by (simp add: pushed_by_def)

lemma pool_step_inv:
  assumes "pool_step limit plan st st'" "pool_inv plan st"
  shows "pool_inv plan st'"
  using assms
proof (induction rule: pool_step.induct)
  case (start k ws items)
  then have len: "length ws = length plan"
    and ok: "\<forall>j<length plan. wstate_ok (plan ! j) (pushed_by j items) (ws ! j)"
    and tags: "\<forall>p\<in>set items. fst p < length plan"
    by (simp_all add: pool_inv_def)
  have "wstate_ok (plan ! j) (pushed_by j items) (ws[k := Running (plan ! k)] ! j)"
    if "j < length plan" for j
  proof (cases "j = k")
    case True
    have "pushed_by k items = []" using ok start(1,2) len by (metis wstate_ok.simps(1))
    then show ?thesis using True start(1) by (cases "plan ! k") simp_all
  next
    case False
    then show ?thesis using ok that by simp
  qed
  then show ?case using len tags by (simp add: pool_inv_def)
next
  case (push ws k r rs items)
  then have len: "length ws = length plan"
    and ok: "\<forall>j<length plan. wstate_ok (plan ! j) (pushed_by j items) (ws ! j)"
    and tags: "\<forall>p\<in>set items. fst p < length plan"
    by (simp_all add: pool_inv_def)
  have "wstate_ok (plan ! j) (pushed_by j (items @ [(k, r)])) (ws[k := Running (Some rs)] ! j)"
    if "j < length plan" for j
  proof (cases "j = k")
    case True
    have "plan ! k = Some (pushed_by k items @ r # rs)"
      using ok push(2,3) len by (metis wstate_ok.simps(3))
    then show ?thesis using True push(2) by (simp add: pushed_by_append)
  next
    case False
    then show ?thesis using ok that by (simp add: pushed_by_append)
  qed
  then show ?case using len tags push(2) by (simp add: pool_inv_def)
next
  case (finish ws k items)
  then have len: "length ws = length plan"
    and ok: "\<forall>j<length plan. wstate_ok (plan ! j) (pushed_by j items) (ws ! j)"
    and tags: "\<forall>p\<in>set items. fst p < length plan"
    by (simp_all add: pool_inv_def)
  have "wstate_ok (plan ! j) (pushed_by j items) (ws[k := Done] ! j)"
    if "j < length plan" for j
  proof (cases "j = k")
    case True
    have "plan ! k = Some (pushed_by k items @ [])"
      using ok finish(2,3) len by (metis wstate_ok.simps(3))
    then show ?thesis using True finish(2) by simp
  next
    case False
    then show ?thesis using ok that by simp
  qed
  then show ?case using len tags by (simp add: pool_inv_def)
qed

lemma pool_steps_inv:
  assumes "(pool_step limit plan)\<^sup>*\<^sup>* st st'" "pool_inv plan st"
  shows "pool_inv plan st'"
  using assms by (induction rule: rtranclp_induct) (auto intro: pool_step_inv)

lemma pool_inv_init: "pool_inv plan (replicate (length plan) Pending, [])"
  by (simp add: pool_inv_def pushed_by_def)

lemma asyncPool_run_pushed:
  assumes "asyncPool_run limit plan items"
  shows "\<forall>k<length plan. plan ! k = Some (pushed_by k items)"
    and "\<forall>p\<in>set items. fst p < length plan"
proof -
  have "pool_inv plan (replicate (length plan) Done, items)"
    using assms pool_inv_init unfolding asyncPool_run_def by (rule pool_steps_inv)
  then show "\<forall>k<length plan. plan ! k = Some (pushed_by k items)"
    and "\<forall>p\<in>set items. fst p < length plan"
    by (simp_all add: pool_inv_def)
qed


text \<open>
  The steps a worker still has to take (its start, its pushes, its end); every step of the
  pool takes one of them, so a pool in which every worker returns reaches its final state.
\<close>

fun work :: "'r wstate \<Rightarrow> 'r list option \<Rightarrow> nat" where
  "work Pending (Some rs) = length rs + 2"
| "work Pending None = 2"
| "work (Running (Some todo)) pl = length todo + 1"
| "work (Running None) pl = 0"
| "work Done pl = 0"

definition total_work :: "'r wstate list \<Rightarrow> 'r list option list \<Rightarrow> nat" where
  "total_work ws plan = sum_list (map2 work ws plan)"

lemma total_work_update:
  "k < length ws \<Longrightarrow> length ws = length plan \<Longrightarrow> work x (plan ! k) < work (ws ! k) (plan ! k)
   \<Longrightarrow> total_work (ws[k := x]) plan < total_work ws plan"
proof (induction ws arbitrary: k plan)
  case Nil
  then show ?case by simp
next
  case (Cons w ws)
  then obtain pl plan' where plan: "plan = pl # plan'" by (cases plan) auto
  show ?case
  proof (cases k)
    case 0
    then show ?thesis using Cons.prems plan by (simp add: total_work_def)
  next
    case (Suc k')
    then have "total_work (ws[k' := x]) plan' < total_work ws plan'"
      using Cons.prems plan by (intro Cons.IH) simp_all
    then show ?thesis using Suc plan by (simp add: total_work_def)
  qed
qed

lemma all_done:
  assumes "Pending \<notin> set ws" "\<forall>k<length ws. \<not> is_running (ws ! k)"
  shows "ws = replicate (length ws) Done"
proof (rule nth_equalityI)
  show "length ws = length (replicate (length ws) Done)" by simp
next
  fix i assume i: "i < length ws"
  then have "ws ! i \<noteq> Pending" using assms(1) by (metis nth_mem)
  moreover have "\<not> is_running (ws ! i)" using assms(2) i by simp
  ultimately have "ws ! i = Done" by (cases "ws ! i") simp_all
  then show "ws ! i = replicate (length ws) Done ! i" using i by simp
qed

lemma no_running_can_start:
  assumes "\<forall>k<length ws. \<not> is_running (ws ! k)"
  shows "can_start limit ws"
proof -
  have "filter is_running ws = []"
    using assms by (auto simp add: filter_empty_conv in_set_conv_nth)
  then show ?thesis by (simp add: can_start_def in_flight_def max_def)
qed

lemma pool_completes:
  assumes "pool_inv plan (ws, items)" "\<forall>pl\<in>set plan. pl \<noteq> None"
  shows "\<exists>items'. (pool_step limit plan)\<^sup>*\<^sup>* (ws, items) (replicate (length plan) Done, items')"
  using assms
proof (induction "total_work ws plan" arbitrary: ws items rule: less_induct)
  case less
  have len: "length ws = length plan"
    and ok: "\<forall>j<length plan. wstate_ok (plan ! j) (pushed_by j items) (ws ! j)"
    using less.prems(1) by (simp_all add: pool_inv_def)
  have some: "\<exists>rs. plan ! k = Some rs" if "k < length plan" for k
    using less.prems(2) that by (metis nth_mem not_None_eq)
  have continue: "\<exists>items'. (pool_step limit plan)\<^sup>*\<^sup>* (ws, items) (replicate (length plan) Done, items')"
    if st: "pool_step limit plan (ws, items) (ws', its')" and dec: "total_work ws' plan < total_work ws plan"
    for ws' its'
  proof -
    have "pool_inv plan (ws', its')" using st less.prems(1) by (rule pool_step_inv)
    with less.hyps [OF dec] less.prems(2)
    obtain items' where "(pool_step limit plan)\<^sup>*\<^sup>* (ws', its') (replicate (length plan) Done, items')"
      by blast
    with st have "(pool_step limit plan)\<^sup>*\<^sup>* (ws, items) (replicate (length plan) Done, items')"
      by (rule converse_rtranclp_into_rtranclp)
    then show ?thesis ..
  qed
  show ?case
  proof (cases "Pending \<in> set ws \<and> can_start limit ws")
    case True
    then obtain i where "i < length ws" "ws ! i = Pending" by (auto simp add: in_set_conv_nth)
    then have ex: "\<exists>i. i < length ws \<and> ws ! i = Pending" by blast
    define k where "k = (LEAST i. i < length ws \<and> ws ! i = Pending)"
    have k: "k < length ws" "ws ! k = Pending"
      using LeastI_ex [OF ex] by (simp_all add: k_def)
    have first: "\<forall>j<k. ws ! j \<noteq> Pending"
    proof (intro allI impI notI)
      fix j assume "j < k" "ws ! j = Pending"
      then have "j < length ws \<and> ws ! j = Pending" using k(1) by simp
      then have "k \<le> j" unfolding k_def by (rule Least_le)
      with \<open>j < k\<close> show False by simp
    qed
    have st: "pool_step limit plan (ws, items) (ws[k := Running (plan ! k)], items)"
      using k first True by (intro pool_step.start) simp_all
    obtain rs where rs: "plan ! k = Some rs" using some [of k] k(1) len by auto
    have "total_work (ws[k := Running (plan ! k)]) plan < total_work ws plan"
      using k len rs by (intro total_work_update) simp_all
    with st show ?thesis by (rule continue)
  next
    case False
    show ?thesis
    proof (cases "\<exists>k<length ws. is_running (ws ! k)")
      case True
      then obtain k w where k: "k < length ws" "ws ! k = Running w"
        by (metis is_running.elims(2))
      obtain rs where rs: "plan ! k = Some rs" using some [of k] k(1) len by auto
      have "w \<noteq> None"
      proof
        assume "w = None"
        then have "wstate_ok (plan ! k) (pushed_by k items) (Running None)"
          using ok k len by (metis)
        with rs show False by simp
      qed
      then obtain todo where w: "w = Some todo" by auto
      show ?thesis
      proof (cases todo)
        case Nil
        have st: "pool_step limit plan (ws, items) (ws[k := Done], items)"
          using False k w Nil by (intro pool_step.finish) simp_all
        have "total_work (ws[k := Done]) plan < total_work ws plan"
          using k len w by (intro total_work_update) simp_all
        with st show ?thesis by (rule continue)
      next
        case (Cons r rest)
        have st: "pool_step limit plan (ws, items) (ws[k := Running (Some rest)], items @ [(k, r)])"
          using False k w Cons by (intro pool_step.push) simp_all
        have "total_work (ws[k := Running (Some rest)]) plan < total_work ws plan"
          using k len w Cons by (intro total_work_update) simp_all
        with st show ?thesis by (rule continue)
      qed
    next
      case nr: False
      then have nrun: "\<forall>k<length ws. \<not> is_running (ws ! k)" by simp
      then have "can_start limit ws" by (rule no_running_can_start)
      with False have "Pending \<notin> set ws" by simp
      then have "ws = replicate (length plan) Done"
        using all_done [OF _ nrun] len by simp
      then have "(pool_step limit plan)\<^sup>*\<^sup>* (ws, items) (replicate (length plan) Done, items)"
        by simp
      then show ?thesis ..
    qed
  qed
qed

lemma asyncPool_run_exists:
  assumes "\<forall>pl\<in>set plan. pl \<noteq> None"
  shows "\<exists>items. asyncPool_run limit plan items"
  unfolding asyncPool_run_def using pool_inv_init assms by (rule pool_completes)


text \<open>
  With a limit of at most 1 a worker is started only when none is running: the workers
  that have started are all finished but possibly the last, and the tags of the pushed
  records are in ascending order.
\<close>

definition seq_inv :: "'r wstate list \<times> (nat \<times> 'r) list \<Rightarrow> bool" where
  "seq_inv st \<longleftrightarrow>
     (case st of (ws, items) \<Rightarrow>
        sorted (map fst items)
        \<and> (\<forall>i j. i < j \<and> j < length ws \<and> ws ! j \<noteq> Pending \<longrightarrow> ws ! i = Done)
        \<and> (\<forall>p\<in>set items. fst p < length ws \<and> ws ! fst p \<noteq> Pending))"

lemma can_start_sequential:
  assumes "limit \<le> 1" "can_start limit ws" "k < length ws"
  shows "\<not> is_running (ws ! k)"
proof
  assume r: "is_running (ws ! k)"
  have "limit \<le> int (length ws)" using assms(1,3) by simp
  then have "int (in_flight ws) < max limit 1" using assms(2) by (simp add: can_start_def)
  then have "in_flight ws = 0" using assms(1) by (simp add: max_def split: if_splits)
  then have "filter is_running ws = []" by (simp add: in_flight_def)
  moreover have "ws ! k \<in> set ws" using assms(3) by simp
  ultimately show False using r by (simp add: filter_empty_conv)
qed

lemma pool_step_seq_inv:
  assumes "pool_step limit plan st st'" "seq_inv st" "limit \<le> 1"
  shows "seq_inv st'"
  using assms
proof (induction rule: pool_step.induct)
  case (start k ws items)
  then have srt: "sorted (map fst items)"
    and ord: "\<forall>i j. i < j \<and> j < length ws \<and> ws ! j \<noteq> Pending \<longrightarrow> ws ! i = Done"
    and tags: "\<forall>p\<in>set items. fst p < length ws \<and> ws ! fst p \<noteq> Pending"
    by (simp_all add: seq_inv_def)
  have before: "ws ! i = Done" if "i < k" for i
  proof -
    have "i < length ws" using that start(1) by simp
    then have "\<not> is_running (ws ! i)" using start(4) start.prems(2) can_start_sequential by blast
    moreover have "ws ! i \<noteq> Pending" using start(3) that by simp
    ultimately show ?thesis by (cases "ws ! i") simp_all
  qed
  have after: "ws ! j = Pending" if "k < j" "j < length ws" for j
    using ord start(2) that by (metis wstate.distinct(3))
  have o': "\<forall>i j. i < j \<and> j < length ws \<and> ws[k := Running (plan ! k)] ! j \<noteq> Pending
      \<longrightarrow> ws[k := Running (plan ! k)] ! i = Done"
  proof (intro allI impI)
    fix i j assume a: "i < j \<and> j < length ws \<and> ws[k := Running (plan ! k)] ! j \<noteq> Pending"
    then have "j \<le> k" using after [of j] by (cases "k < j") (auto simp add: not_less)
    then have "i < k" using a by simp
    then show "ws[k := Running (plan ! k)] ! i = Done" using before [of i] by simp
  qed
  have t': "\<forall>p\<in>set items. fst p < length ws \<and> ws[k := Running (plan ! k)] ! fst p \<noteq> Pending"
    using tags start(1) by (auto simp add: nth_list_update)
  show ?case using srt o' t' by (simp add: seq_inv_def)
next
  case (push ws k r rs items)
  then have srt: "sorted (map fst items)"
    and ord: "\<forall>i j. i < j \<and> j < length ws \<and> ws ! j \<noteq> Pending \<longrightarrow> ws ! i = Done"
    and tags: "\<forall>p\<in>set items. fst p < length ws \<and> ws ! fst p \<noteq> Pending"
    by (simp_all add: seq_inv_def)
  have le: "fst p \<le> k" if "p \<in> set items" for p
  proof (rule ccontr)
    assume "\<not> fst p \<le> k"
    then have "k < fst p" by simp
    moreover have "fst p < length ws \<and> ws ! fst p \<noteq> Pending" using tags that by blast
    ultimately have "ws ! k = Done" using ord by blast
    with push(3) show False by simp
  qed
  have s': "sorted (map fst (items @ [(k, r)]))"
    using srt le by (auto simp add: sorted_append)
  have o': "\<forall>i j. i < j \<and> j < length ws \<and> ws[k := Running (Some rs)] ! j \<noteq> Pending
      \<longrightarrow> ws[k := Running (Some rs)] ! i = Done"
  proof (intro allI impI)
    fix i j assume a: "i < j \<and> j < length ws \<and> ws[k := Running (Some rs)] ! j \<noteq> Pending"
    then have "ws ! j \<noteq> Pending" using push(3) by (cases "j = k") auto
    then have d: "ws ! i = Done" using ord a by blast
    then have "i \<noteq> k" using push(3) by auto
    then show "ws[k := Running (Some rs)] ! i = Done" using d by simp
  qed
  have t': "\<forall>p\<in>set (items @ [(k, r)]).
      fst p < length ws \<and> ws[k := Running (Some rs)] ! fst p \<noteq> Pending"
    using tags push(2) by (auto simp add: nth_list_update)
  show ?case using s' o' t' by (simp add: seq_inv_def)
next
  case (finish ws k items)
  then have srt: "sorted (map fst items)"
    and ord: "\<forall>i j. i < j \<and> j < length ws \<and> ws ! j \<noteq> Pending \<longrightarrow> ws ! i = Done"
    and tags: "\<forall>p\<in>set items. fst p < length ws \<and> ws ! fst p \<noteq> Pending"
    by (simp_all add: seq_inv_def)
  have o': "\<forall>i j. i < j \<and> j < length ws \<and> ws[k := Done] ! j \<noteq> Pending
      \<longrightarrow> ws[k := Done] ! i = Done"
  proof (intro allI impI)
    fix i j assume a: "i < j \<and> j < length ws \<and> ws[k := Done] ! j \<noteq> Pending"
    then have "ws ! j \<noteq> Pending" using finish(3) by (cases "j = k") auto
    then have d: "ws ! i = Done" using ord a by blast
    then show "ws[k := Done] ! i = Done" using a by (cases "i = k") auto
  qed
  have t': "\<forall>p\<in>set items. fst p < length ws \<and> ws[k := Done] ! fst p \<noteq> Pending"
    using tags finish(2) by (auto simp add: nth_list_update)
  show ?case using srt o' t' by (simp add: seq_inv_def)
qed

lemma pool_steps_seq_inv:
  assumes "(pool_step limit plan)\<^sup>*\<^sup>* st st'" "seq_inv st" "limit \<le> 1"
  shows "seq_inv st'"
  using assms by (induction rule: rtranclp_induct) (auto intro: pool_step_seq_inv)

lemma sorted_tags_split:
  "sorted (map fst xs) \<Longrightarrow>
   xs = filter (\<lambda>p. fst p < n) xs @ filter (\<lambda>p. \<not> fst p < n) xs"
proof (induction xs)
  case Nil
  then show ?case by simp
next
  case (Cons x xs)
  show ?case
  proof (cases "fst x < n")
    case True
    then show ?thesis using Cons by simp
  next
    case False
    then have "\<forall>p\<in>set xs. \<not> fst p < n" using Cons.prems by auto
    then have "filter (\<lambda>p. fst p < n) xs = []" "filter (\<lambda>p. \<not> fst p < n) xs = xs"
      by (simp_all add: filter_empty_conv)
    then show ?thesis using False by simp
  qed
qed

lemma sorted_tags_concat:
  "sorted (map fst xs) \<Longrightarrow> \<forall>p\<in>set xs. fst p < n \<Longrightarrow>
   map snd xs = concat (map (\<lambda>k. pushed_by k xs) [0..<n])"
proof (induction n arbitrary: xs)
  case 0
  then show ?case by (cases xs) auto
next
  case (Suc n)
  define lo where "lo = filter (\<lambda>p. fst p < n) xs"
  define hi where "hi = filter (\<lambda>p. \<not> fst p < n) xs"
  have xs: "xs = lo @ hi" unfolding lo_def hi_def using Suc.prems(1) by (rule sorted_tags_split)
  have slo: "sorted (map fst lo)"
    unfolding lo_def using Suc.prems(1) by (simp add: sorted_filter)
  have tlo: "\<forall>p\<in>set lo. fst p < n" by (simp add: lo_def)
  have "map snd lo = concat (map (\<lambda>k. pushed_by k lo) [0..<n])"
    using slo tlo by (rule Suc.IH)
  moreover have same: "pushed_by k lo = pushed_by k xs" if "k < n" for k
  proof -
    have "filter (\<lambda>p. fst p = k) (filter (\<lambda>p. fst p < n) xs) = filter (\<lambda>p. fst p = k) xs"
      using that by (auto simp add: filter_filter intro: filter_cong)
    then show ?thesis by (simp add: pushed_by_def lo_def)
  qed
  moreover from same have "map (\<lambda>k. pushed_by k lo) [0..<n] = map (\<lambda>k. pushed_by k xs) [0..<n]"
    by (intro map_cong) simp_all
  ultimately have lo': "map snd lo = concat (map (\<lambda>k. pushed_by k xs) [0..<n])"
    by simp
  have "hi = filter (\<lambda>p. fst p = n) xs"
    unfolding hi_def using Suc.prems(2) by (intro filter_cong) auto
  then have hi': "map snd hi = pushed_by n xs" by (simp add: pushed_by_def)
  have "map snd xs = map snd lo @ map snd hi" by (subst xs) simp
  then show ?case using lo' hi' by simp
qed

lemma asyncPool_run_sequential:
  assumes "asyncPool_run limit plan items" "limit \<le> 1"
  shows "map snd items = concat (map (\<lambda>k. pushed_by k items) [0..<length plan])"
proof -
  have "seq_inv (replicate (length plan) Pending, [])" by (auto simp add: seq_inv_def)
  with assms have "seq_inv (replicate (length plan) Done, items)"
    unfolding asyncPool_run_def using pool_steps_seq_inv by blast
  then have "sorted (map fst items)" "\<forall>p\<in>set items. fst p < length plan"
    by (simp_all add: seq_inv_def)
  then show ?thesis by (rule sorted_tags_concat)
qed

lemma interleaved_run:
  assumes "2 \<le> limit"
  shows "asyncPool_run limit [Some [a], Some [b]] [(1, b), (0, a)]"
proof -
  let ?plan = "[Some [a], Some [b]]"
  have c0: "can_start limit [Pending, Pending]"
    using assms by (simp add: can_start_def in_flight_def)
  have c1: "can_start limit [Running (Some [a]), Pending]"
    using assms by (simp add: can_start_def in_flight_def)
  have s1: "pool_step limit ?plan ([Pending, Pending], [])
      ([Pending, Pending][0 := Running (?plan ! 0)], [])"
    using c0 by (intro pool_step.start) simp_all
  have s2: "pool_step limit ?plan ([Running (Some [a]), Pending], [])
      ([Running (Some [a]), Pending][1 := Running (?plan ! 1)], [])"
    using c1 by (intro pool_step.start) (simp_all add: less_Suc_eq)
  have s3: "pool_step limit ?plan ([Running (Some [a]), Running (Some [b])], [])
      ([Running (Some [a]), Running (Some [b])][1 := Running (Some [])], [] @ [(1, b)])"
    by (intro pool_step.push) simp_all
  have s4: "pool_step limit ?plan ([Running (Some [a]), Running (Some [])], [(1, b)])
      ([Running (Some [a]), Running (Some [])][0 := Running (Some [])], [(1, b)] @ [(0, a)])"
    by (intro pool_step.push) simp_all
  have s5: "pool_step limit ?plan ([Running (Some []), Running (Some [])], [(1, b), (0, a)])
      ([Running (Some []), Running (Some [])][0 := Done], [(1, b), (0, a)])"
    by (intro pool_step.finish) simp_all
  have s6: "pool_step limit ?plan ([Done, Running (Some [])], [(1, b), (0, a)])
      ([Done, Running (Some [])][1 := Done], [(1, b), (0, a)])"
    by (intro pool_step.finish) simp_all
  have "(pool_step limit ?plan)\<^sup>*\<^sup>* ([Pending, Pending], []) ([Done, Done], [(1, b), (0, a)])"
    using s1 s2 s3 s4 s5 s6
    by (simp add: converse_rtranclp_into_rtranclp [OF _ converse_rtranclp_into_rtranclp
        [OF _ converse_rtranclp_into_rtranclp [OF _ converse_rtranclp_into_rtranclp
        [OF _ converse_rtranclp_into_rtranclp [OF _ r_into_rtranclp]]]]])
  then show ?thesis by (simp add: asyncPool_run_def numeral_2_eq_2)
qed



section \<open>The run\<close>

text \<open>
  The part of \<^verbatim>\<open>main\<close> from the pool to the delivery.  The token exchange and
  \<^verbatim>\<open>listLocations\<close> come before it (a failure there ends the run before any review is
  read); their result, the list \<^verbatim>\<open>locations\<close>, is an argument.  \<open>loc_id\<close> is the
  \<^verbatim>\<open>locationId\<close> of a location, \<open>item_from\<close> the record pushed for a review of a location,
  and \<open>location_records\<close> describes what a location contributes, from its own review
  source \<open>net\<close> alone: one record for each harvested review, in the order of the harvest,
  and nothing when it has no id or its harvest throws.
\<close>

definition loc_id :: "location \<Rightarrow> jsstring" where
  "loc_id loc = last_segment (trim (l_name loc))"

definition item_from ::
  "env \<Rightarrow> (prefill_payload \<Rightarrow> nat \<Rightarrow> prefill_json outcome) \<Rightarrow> location \<Rightarrow> review \<Rightarrow> item" where
  "item_from ev pnet loc r =
     build_item ev pnet (loc_id loc) (trim (l_storeCode loc)) (trim (l_title loc)) r"

definition location_records ::
  "nat \<Rightarrow> env \<Rightarrow> (jsstring \<Rightarrow> nat \<Rightarrow> reviews_page outcome)
   \<Rightarrow> (prefill_payload \<Rightarrow> nat \<Rightarrow> prefill_json outcome) \<Rightarrow> int \<Rightarrow> int \<Rightarrow> location \<Rightarrow> item list" where
  "location_records fuel ev net pnet s e loc =
     (if loc_id loc = [] then []
      else case listReviewsForLocation fuel net (GBP_ACCOUNT_ID ev) (loc_id loc) s e of
             Some (Inr (revs, requested)) \<Rightarrow> map (item_from ev pnet loc) revs
           | _ \<Rightarrow> [])"

text \<open>
  \<open>main_plan\<close> gives the pool what every location's worker pushes; \<open>config_ok\<close> are the four
  calls of \<^verbatim>\<open>mustEnv\<close> at the start of \<^verbatim>\<open>main\<close>; \<open>main_run\<close> holds of the tagged list
  \<^verbatim>\<open>items\<close> a run can end with, for the window computed at \<open>now\<close>; \<open>delivered\<close> are the
  records of the payloads handed to \<^verbatim>\<open>postToMake\<close>, in order.
\<close>

definition main_plan ::
  "nat \<Rightarrow> env \<Rightarrow> (jsstring \<Rightarrow> jsstring \<Rightarrow> nat \<Rightarrow> reviews_page outcome)
   \<Rightarrow> (prefill_payload \<Rightarrow> nat \<Rightarrow> prefill_json outcome) \<Rightarrow> int \<Rightarrow> int \<Rightarrow> location list
   \<Rightarrow> item list option list" where
  "main_plan fuel ev rnet pnet s e locs =
     map (\<lambda>loc. map_option fst (main_worker fuel ev rnet pnet s e loc)) locs"

definition config_ok :: "env \<Rightarrow> bool" where
  "config_ok ev \<longleftrightarrow>
     list_all (\<lambda>r. case r of Inl e \<Rightarrow> False | Inr v \<Rightarrow> True)
       [mustEnv ''GBP_ACCOUNT_ID'' (GBP_ACCOUNT_ID ev),
        mustEnv ''MAKE_REVIEWS_WEBHOOK_URL'' (MAKE_REVIEWS_WEBHOOK_URL ev),
        mustEnv ''PREFILL_API_URL'' (PREFILL_API_URL ev),
        mustEnv ''PREFILL_SECRET'' (PREFILL_SECRET ev)]"

definition main_run ::
  "nat \<Rightarrow> env \<Rightarrow> (jsstring \<Rightarrow> jsstring \<Rightarrow> nat \<Rightarrow> reviews_page outcome)
   \<Rightarrow> (prefill_payload \<Rightarrow> nat \<Rightarrow> prefill_json outcome) \<Rightarrow> int \<Rightarrow> location list
   \<Rightarrow> (nat \<times> item) list \<Rightarrow> bool" where
  "main_run fuel ev rnet pnet now locs tagged \<longleftrightarrow>
     config_ok ev
     \<and> (case getYesterdayRangeBerlin now of
          (start, fin) \<Rightarrow>
            asyncPool_run (CONCURRENCY ev)
              (main_plan fuel ev rnet pnet (ts start) (ts fin) locs) tagged)"

definition delivered :: "env \<Rightarrow> (nat \<times> item) list \<Rightarrow> item list" where
  "delivered ev tagged =
     concat (map data (make_payloads (map snd tagged) (MAKE_BATCH_SIZE ev)))"

lemma concat_dispatch_chunks: "concat (dispatch_chunks xs sz) = xs"
proof (cases "0 < sz")
  case True
  then show ?thesis
    by (cases "xs = []") (simp_all add: dispatch_chunks_eq concat_chunks_of)
next
  case False
  then show ?thesis by (simp add: dispatch_chunks_def chunkArray_def)
qed

lemma delivered_eq: "delivered ev tagged = map snd tagged"
  by (simp add: delivered_def data_make_payloads concat_dispatch_chunks)

lemma listReviews_loop_in_window:
  "listReviews_loop fuel net u s e tok below out req = Some (Inr (out', req'))
   \<Longrightarrow> \<forall>r\<in>set out. in_window s e r \<Longrightarrow> \<forall>r\<in>set out'. in_window s e r"
proof (induction fuel arbitrary: tok below out req)
  case 0
  then show ?case by simp
next
  case (Suc fuel)
  show ?case
  proof (cases "getJson u (net tok)")
    case (Inl err)
    then show ?thesis using Suc.prems by simp
  next
    case (Inr j)
    define out1 where "out1 = out @ filter (in_window s e) (reviews j)"
    have o1: "\<forall>r\<in>set out1. in_window s e r" using Suc.prems(2) by (auto simp add: out1_def)
    show ?thesis
    proof (cases "reviews j = []")
      case True
      then show ?thesis using Suc.prems Inr by simp
    next
      case False
      define b where "b = (if \<not> list_ex (at_or_after s) (reviews j) then below + 1 else 0)"
      show ?thesis
      proof (cases "b \<ge> 2 \<or> nextPageToken j = []")
        case True
        then have "out' = out1"
          using Suc.prems(1) Inr False
          by (auto simp add: scan_reviews_eq b_def out1_def Let_def split: if_splits)
        then show ?thesis using o1 by simp
      next
        case F: False
        then have "listReviews_loop fuel net u s e (nextPageToken j) b out1 (req @ [tok])
            = Some (Inr (out', req'))"
          using Suc.prems(1) Inr False
          by (auto simp add: scan_reviews_eq b_def out1_def Let_def split: if_splits)
        then show ?thesis using o1 by (rule Suc.IH)
      qed
    qed
  qed
qed

lemma listReviewsForLocation_in_window:
  "listReviewsForLocation fuel net a l s e = Some (Inr (out, req))
   \<Longrightarrow> \<forall>r\<in>set out. in_window s e r"
  unfolding listReviewsForLocation_def by (erule listReviews_loop_in_window) simp

lemma main_worker_Some:
  assumes "main_worker fuel ev rnet pnet s e loc = Some (its, lg)"
  shows "its = location_records fuel ev (rnet (loc_id loc)) pnet s e loc"
  using assms
  by (auto simp add: main_worker_def location_records_def loc_id_def item_from_def Let_def
      split: if_splits option.splits sum.splits prod.splits)

lemma main_worker_None:
  "main_worker fuel ev rnet pnet s e loc = None \<longleftrightarrow>
     loc_id loc \<noteq> []
     \<and> listReviewsForLocation fuel (rnet (loc_id loc)) (GBP_ACCOUNT_ID ev) (loc_id loc) s e = None"
  by (auto simp add: main_worker_def loc_id_def Let_def
      split: if_splits option.splits sum.splits prod.splits)


lemma main_run_pushed:
  assumes "main_run fuel ev rnet pnet now locs tagged" "k < length locs"
  shows "pushed_by k tagged =
           location_records fuel ev (rnet (loc_id (locs ! k))) pnet
             (ts (fst (getYesterdayRangeBerlin now))) (ts (snd (getYesterdayRangeBerlin now)))
             (locs ! k)"
proof -
  obtain a b where w: "getYesterdayRangeBerlin now = (a, b)"
    by (cases "getYesterdayRangeBerlin now")
  have run: "asyncPool_run (CONCURRENCY ev) (main_plan fuel ev rnet pnet (ts a) (ts b) locs) tagged"
    using assms(1) w by (simp add: main_run_def)
  have "main_plan fuel ev rnet pnet (ts a) (ts b) locs ! k = Some (pushed_by k tagged)"
    using asyncPool_run_pushed(1) [OF run] assms(2) by (simp add: main_plan_def)
  then have "map_option fst (main_worker fuel ev rnet pnet (ts a) (ts b) (locs ! k))
      = Some (pushed_by k tagged)"
    using assms(2) by (simp add: main_plan_def)
  then obtain lg where "main_worker fuel ev rnet pnet (ts a) (ts b) (locs ! k)
      = Some (pushed_by k tagged, lg)" by auto
  then show ?thesis using w by (simp add: main_worker_Some)
qed

lemma main_run_tags:
  assumes "main_run fuel ev rnet pnet now locs tagged" "p \<in> set tagged"
  shows "fst p < length locs"
proof -
  obtain a b where w: "getYesterdayRangeBerlin now = (a, b)"
    by (cases "getYesterdayRangeBerlin now")
  have run: "asyncPool_run (CONCURRENCY ev) (main_plan fuel ev rnet pnet (ts a) (ts b) locs) tagged"
    using assms(1) w by (simp add: main_run_def)
  show ?thesis using asyncPool_run_pushed(2) [OF run] assms(2) by (simp add: main_plan_def)
qed

lemma main_run_exists:
  assumes "config_ok ev"
    and "\<forall>loc\<in>set locs. loc_id loc \<noteq> [] \<longrightarrow>
           listReviewsForLocation fuel (rnet (loc_id loc)) (GBP_ACCOUNT_ID ev) (loc_id loc)
             (ts (fst (getYesterdayRangeBerlin now))) (ts (snd (getYesterdayRangeBerlin now)))
           \<noteq> None"
  shows "\<exists>tagged. main_run fuel ev rnet pnet now locs tagged"
proof -
  obtain a b where w: "getYesterdayRangeBerlin now = (a, b)"
    by (cases "getYesterdayRangeBerlin now")
  have "main_worker fuel ev rnet pnet (ts a) (ts b) loc \<noteq> None" if "loc \<in> set locs" for loc
    using assms(2) w that unfolding main_worker_None by auto
  then have "\<forall>pl\<in>set (main_plan fuel ev rnet pnet (ts a) (ts b) locs). pl \<noteq> None"
    by (auto simp add: main_plan_def)
  then obtain tagged where
    "asyncPool_run (CONCURRENCY ev) (main_plan fuel ev rnet pnet (ts a) (ts b) locs) tagged"
    using asyncPool_run_exists by blast
  then have "main_run fuel ev rnet pnet now locs tagged"
    using assms(1) w by (simp add: main_run_def)
  then show ?thesis ..
qed

lemma pushed_by_mem:
  "(k, x) \<in> set items \<Longrightarrow> x \<in> set (pushed_by k items)"
  by (force simp add: pushed_by_def)

lemma main_run_sequential:
  assumes "main_run fuel ev rnet pnet now locs tagged" "CONCURRENCY ev \<le> 1"
  shows "map snd tagged =
     concat (map (\<lambda>loc. location_records fuel ev (rnet (loc_id loc)) pnet
                    (ts (fst (getYesterdayRangeBerlin now)))
                    (ts (snd (getYesterdayRangeBerlin now))) loc) locs)"
proof -
  obtain a b where w: "getYesterdayRangeBerlin now = (a, b)"
    by (cases "getYesterdayRangeBerlin now")
  have run: "asyncPool_run (CONCURRENCY ev) (main_plan fuel ev rnet pnet (ts a) (ts b) locs) tagged"
    using assms(1) w by (simp add: main_run_def)
  have "map snd tagged = concat (map (\<lambda>k. pushed_by k tagged) [0..<length locs])"
    using asyncPool_run_sequential [OF run assms(2)] by (simp add: main_plan_def)
  also have "map (\<lambda>k. pushed_by k tagged) [0..<length locs]
      = map (\<lambda>k. location_records fuel ev (rnet (loc_id (locs ! k))) pnet
                    (ts (fst (getYesterdayRangeBerlin now)))
                    (ts (snd (getYesterdayRangeBerlin now))) (locs ! k)) [0..<length locs]"
    using main_run_pushed [OF assms(1)] by (intro map_cong) simp_all
  also have "\<dots> = map (\<lambda>loc. location_records fuel ev (rnet (loc_id loc)) pnet
                    (ts (fst (getYesterdayRangeBerlin now)))
                    (ts (snd (getYesterdayRangeBerlin now))) loc) locs"
    by (intro nth_equalityI) simp_all
  finally show ?thesis .
qed


text \<open>
  What \<^verbatim>\<open>listReviewsForLocation\<close> does for a location in the window computed at \<open>now\<close>,
  and the records the location contributes then.
\<close>

definition harvest_of ::
  "nat \<Rightarrow> env \<Rightarrow> (jsstring \<Rightarrow> jsstring \<Rightarrow> nat \<Rightarrow> reviews_page outcome) \<Rightarrow> int \<Rightarrow> location
   \<Rightarrow> (jserror + review list \<times> jsstring list) option" where
  "harvest_of fuel ev rnet now loc =
     listReviewsForLocation fuel (rnet (loc_id loc)) (GBP_ACCOUNT_ID ev) (loc_id loc)
       (ts (fst (getYesterdayRangeBerlin now))) (ts (snd (getYesterdayRangeBerlin now)))"

definition records_of ::
  "nat \<Rightarrow> env \<Rightarrow> (jsstring \<Rightarrow> jsstring \<Rightarrow> nat \<Rightarrow> reviews_page outcome)
   \<Rightarrow> (prefill_payload \<Rightarrow> nat \<Rightarrow> prefill_json outcome) \<Rightarrow> int \<Rightarrow> location \<Rightarrow> item list" where
  "records_of fuel ev rnet pnet now loc =
     location_records fuel ev (rnet (loc_id loc)) pnet
       (ts (fst (getYesterdayRangeBerlin now))) (ts (snd (getYesterdayRangeBerlin now))) loc"

lemma records_of_harvest:
  "records_of fuel ev rnet pnet now loc =
     (if loc_id loc = [] then []
      else case harvest_of fuel ev rnet now loc of
             Some (Inr (revs, requested)) \<Rightarrow> map (item_from ev pnet loc) revs
           | _ \<Rightarrow> [])"
  by (simp add: records_of_def location_records_def harvest_of_def)

lemma records_of_in_window:
  assumes "it \<in> set (records_of fuel ev rnet pnet now loc)"
  shows "\<exists>r t. it = item_from ev pnet loc r \<and> r_createTime r = Millis t
           \<and> ts (fst (getYesterdayRangeBerlin now)) \<le> t
           \<and> t \<le> ts (snd (getYesterdayRangeBerlin now))
           \<and> reviewed_at it = toFormat t"
proof -
  have "\<exists>revs req. harvest_of fuel ev rnet now loc = Some (Inr (revs, req))
      \<and> it \<in> set (map (item_from ev pnet loc) revs)"
  proof (cases "harvest_of fuel ev rnet now loc")
    case None
    then show ?thesis using assms by (simp add: records_of_harvest split: if_splits)
  next
    case (Some x)
    show ?thesis
    proof (cases x)
      case (Inl err)
      then show ?thesis using assms Some by (simp add: records_of_harvest split: if_splits)
    next
      case (Inr p)
      then show ?thesis using assms Some
        by (cases p) (simp add: records_of_harvest split: if_splits)
    qed
  qed
  then obtain revs req r where
    h: "harvest_of fuel ev rnet now loc = Some (Inr (revs, req))" and r: "r \<in> set revs"
    and it: "it = item_from ev pnet loc r"
    by auto
  have "in_window (ts (fst (getYesterdayRangeBerlin now)))
      (ts (snd (getYesterdayRangeBerlin now))) r"
    using listReviewsForLocation_in_window [OF h [unfolded harvest_of_def]] r by blast
  then obtain t where t: "r_createTime r = Millis t"
    "ts (fst (getYesterdayRangeBerlin now)) \<le> t" "t \<le> ts (snd (getYesterdayRangeBerlin now))"
    by (auto simp add: in_window_def split: ctime.splits)
  have "reviewed_at it = toFormat t"
    using t(1) by (simp add: it item_from_def build_item_def prefill_payload_of_def Let_def
        reviewed_at_of_def split: prod.splits)
  with it t show ?thesis by blast
qed

text \<open>
  C4.  Every record delivered by a run was built from a review of one of the locations
  whose creation time is a timestamp \<open>t\<close> with \<open>window start \<le> t \<le> window end\<close> (instants,
  as the code compares them), and its \<^verbatim>\<open>reviewed_at\<close> is that instant printed in the
  zone; a review without a readable creation time never gives a record.
\<close>

theorem output_in_window:
  assumes "main_run fuel ev rnet pnet now locs tagged"
  shows "\<forall>it\<in>set (delivered ev tagged).
           \<exists>loc\<in>set locs. \<exists>r t.
             it = item_from ev pnet loc r \<and> r_createTime r = Millis t
             \<and> ts (fst (getYesterdayRangeBerlin now)) \<le> t
             \<and> t \<le> ts (snd (getYesterdayRangeBerlin now))
             \<and> reviewed_at it = toFormat t"
proof
  fix it assume "it \<in> set (delivered ev tagged)"
  then obtain k where k: "(k, it) \<in> set tagged" by (auto simp add: delivered_eq)
  then have kl: "k < length locs" using main_run_tags [OF assms] by fastforce
  have "it \<in> set (pushed_by k tagged)" using k by (rule pushed_by_mem)
  then have "it \<in> set (records_of fuel ev rnet pnet now (locs ! k))"
    using main_run_pushed [OF assms kl] by (simp add: records_of_def)
  from records_of_in_window [OF this] kl
  show "\<exists>loc\<in>set locs. \<exists>r t.
             it = item_from ev pnet loc r \<and> r_createTime r = Millis t
             \<and> ts (fst (getYesterdayRangeBerlin now)) \<le> t
             \<and> t \<le> ts (snd (getYesterdayRangeBerlin now))
             \<and> reviewed_at it = toFormat t"
    by (metis nth_mem)
qed


text \<open>
  A small world to run the script in: Berlin time 2024-06-10 08:13:20, so that the window
  is 2024-06-09; three locations; a review source that serves one page with one review of
  2024-06-09 to every location but location 2, whose requests fail at the network level;
  and a reply-link service that always answers 503.
\<close>

definition ev0 :: env where
  "ev0 = \<lparr>GBP_ACCOUNT_ID = lit ''acc'', MAKE_REVIEWS_WEBHOOK_URL = lit ''https://hook'',
          PREFILL_API_URL = lit ''https://prefill'', PREFILL_SECRET = lit ''secret'',
          PUBLIC_APP_URL = lit ''https://app/'', CONCURRENCY = 5, MAKE_BATCH_SIZE = 200\<rparr>"

definition now0 :: int where
  "now0 = 1718000000000"

definition rev0 :: review where
  "rev0 = \<lparr>r_name = lit ''accounts/acc/locations/1/reviews/r1'',
           r_createTime = Millis 1717900000000, r_starRating = JStr (lit ''FIVE''),
           r_displayName = lit ''Ann'', r_profileName = [],
           r_comment = lit ''Top (Translated by Google) Spitze''\<rparr>"

definition locA :: location where
  "locA = \<lparr>l_name = lit ''locations/1'', l_storeCode = lit ''A'', l_title = lit ''Shop A''\<rparr>"

definition locB :: location where
  "locB = \<lparr>l_name = lit ''locations/2'', l_storeCode = lit ''B'', l_title = lit ''Shop B''\<rparr>"

definition locC :: location where
  "locC = \<lparr>l_name = lit ''locations/3'', l_storeCode = lit ''C'', l_title = lit ''Shop C''\<rparr>"

definition rnet0 :: "jsstring \<Rightarrow> jsstring \<Rightarrow> nat \<Rightarrow> reviews_page outcome" where
  "rnet0 locId =
     (if locId = lit ''2'' then (\<lambda>tok attempt. Rejected (Thrown TypeError (lit ''fetch failed'')))
      else feed_net [[rev0]])"

definition pnet_down :: "prefill_payload \<Rightarrow> nat \<Rightarrow> prefill_json outcome" where
  "pnet_down p attempt =
     Responded \<lparr>status = 503, statusText = lit ''Service Unavailable'', bodyText = Inr [],
                bodyJson = Inl (Thrown SyntaxError (lit ''Unexpected end of JSON input''))\<rparr>"

lemma window0:
  "getYesterdayRangeBerlin now0 =
     (\<lparr>ts = 1717884000000, off = 120\<rparr>, \<lparr>ts = 1717970399999, off = 120\<rparr>)"
  unfolding now0_def by code_simp

lemma loc_ids: "loc_id locA = lit ''1''" "loc_id locB = lit ''2''" "loc_id locC = lit ''3''"
  by (simp_all add: loc_id_def locA_def locB_def locC_def last_segment_def trim_def
      trimStart_def trimEnd_def isWhiteSpace_def lit_def)

lemma harvest_single:
  assumes "in_window s e r"
  shows "listReviewsForLocation 5 (feed_net [[r]]) a l s e = Some (Inr ([r], [page_token 0]))"
proof -
  have "find (stops_at s [[r]]) [0..<length [[r]]] = Some 0"
    by (simp add: stops_at_def)
  then have "listReviewsForLocation 5 (feed_net [[r]]) a l s e =
     Some (Inr (concat (map (filter (in_window s e)) (take (Suc 0) [[r]])),
                map page_token [0..<Suc 0]))"
    by (rule listReviewsForLocation_feed) simp
  then show ?thesis using assms by simp
qed

lemma harvest_down:
  "listReviewsForLocation (Suc fuel) (\<lambda>tok attempt. Rejected err) a l s e = Some (Inl err)"
  by (simp add: listReviewsForLocation_def getJson_def requestWithRetry_closed upt_0_4
      retryable_def error_of_def)

lemma harvest0:
  "harvest_of 5 ev0 rnet0 now0 locA = Some (Inr ([rev0], [page_token 0]))"
  "harvest_of 5 ev0 rnet0 now0 locC = Some (Inr ([rev0], [page_token 0]))"
  "harvest_of 5 ev0 rnet0 now0 locB = Some (Inl (Thrown TypeError (lit ''fetch failed'')))"
proof -
  have w: "in_window 1717884000000 1717970399999 rev0"
    by (simp add: in_window_def rev0_def)
  have ne: "lit ''1'' \<noteq> lit ''2''" "lit ''3'' \<noteq> lit ''2''" by (simp_all add: lit_def)
  show "harvest_of 5 ev0 rnet0 now0 locA = Some (Inr ([rev0], [page_token 0]))"
    using w ne by (simp add: harvest_of_def window0 loc_ids rnet0_def harvest_single)
  show "harvest_of 5 ev0 rnet0 now0 locC = Some (Inr ([rev0], [page_token 0]))"
    using w ne by (simp add: harvest_of_def window0 loc_ids rnet0_def harvest_single)
  have "harvest_of (Suc 4) ev0 rnet0 now0 locB = Some (Inl (Thrown TypeError (lit ''fetch failed'')))"
    by (simp only: harvest_of_def loc_ids rnet0_def refl if_True harvest_down)
  then show "harvest_of 5 ev0 rnet0 now0 locB = Some (Inl (Thrown TypeError (lit ''fetch failed'')))"
    by simp
qed

lemma records0:
  "records_of 5 ev0 rnet0 pnet now0 locA = [item_from ev0 pnet locA rev0]"
  "records_of 5 ev0 rnet0 pnet now0 locC = [item_from ev0 pnet locC rev0]"
  "records_of 5 ev0 rnet0 pnet now0 locB = []"
  by (simp_all add: records_of_harvest harvest0 loc_ids lit_def)

lemma config0: "config_ok ev0"
  by (simp add: config_ok_def mustEnv_def ev0_def lit_def)

lemma locationId_item_from: "locationId (item_from ev pnet loc r) = loc_id loc"
  by (simp add: item_from_def build_item_def Let_def split: prod.splits)


lemma main_plan_entry:
  assumes "loc_id loc \<noteq> [] \<longrightarrow>
    listReviewsForLocation fuel (rnet (loc_id loc)) (GBP_ACCOUNT_ID ev) (loc_id loc) s e \<noteq> None"
  shows "map_option fst (main_worker fuel ev rnet pnet s e loc)
       = Some (location_records fuel ev (rnet (loc_id loc)) pnet s e loc)"
proof -
  have "main_worker fuel ev rnet pnet s e loc \<noteq> None"
    using assms unfolding main_worker_None by blast
  then obtain its lg where m: "main_worker fuel ev rnet pnet s e loc = Some (its, lg)" by auto
  then show ?thesis using main_worker_Some [OF m] by simp
qed

lemma example_run:
  "main_run 5 ev0 rnet0 pnet now0 [locA, locC]
     [(1, item_from ev0 pnet locC rev0), (0, item_from ev0 pnet locA rev0)]"
proof -
  have a: "map_option fst (main_worker 5 ev0 rnet0 pnet 1717884000000 1717970399999 locA)
      = Some [item_from ev0 pnet locA rev0]"
    using records0(1) [of pnet] harvest0(1)
    by (subst main_plan_entry) (simp_all add: harvest_of_def records_of_def window0)
  have c: "map_option fst (main_worker 5 ev0 rnet0 pnet 1717884000000 1717970399999 locC)
      = Some [item_from ev0 pnet locC rev0]"
    using records0(2) [of pnet] harvest0(2)
    by (subst main_plan_entry) (simp_all add: harvest_of_def records_of_def window0)
  have conc: "CONCURRENCY ev0 = 5" by (simp add: ev0_def)
  have "asyncPool_run 5 [Some [item_from ev0 pnet locA rev0], Some [item_from ev0 pnet locC rev0]]
      [(1, item_from ev0 pnet locC rev0), (0, item_from ev0 pnet locA rev0)]"
    by (rule interleaved_run) simp
  then show ?thesis
    by (simp add: main_run_def window0 main_plan_def conc a c config0)
qed






text \<open>
  A run on two locations in that world, in which the second location's worker pushes
  first; its records lie in the window.
\<close>

theorem output_in_window_witness:
  "main_run 5 ev0 rnet0 pnet_down now0 [locA, locC]
     [(1, item_from ev0 pnet_down locC rev0), (0, item_from ev0 pnet_down locA rev0)]
   \<and> (\<exists>t. reviewed_at (item_from ev0 pnet_down locA rev0) = toFormat t
          \<and> 1717884000000 \<le> t \<and> t \<le> 1717970399999)"
proof -
  have run: "main_run 5 ev0 rnet0 pnet_down now0 [locA, locC]
     [(1, item_from ev0 pnet_down locC rev0), (0, item_from ev0 pnet_down locA rev0)]"
    by (rule example_run)
  have "item_from ev0 pnet_down locA rev0
      \<in> set (delivered ev0 [(1, item_from ev0 pnet_down locC rev0),
                             (0, item_from ev0 pnet_down locA rev0)])"
    by (simp add: delivered_eq)
  with output_in_window [OF run]
  have "\<exists>loc\<in>set [locA, locC]. \<exists>r t.
      item_from ev0 pnet_down locA rev0 = item_from ev0 pnet_down loc r
      \<and> r_createTime r = Millis t
      \<and> ts (fst (getYesterdayRangeBerlin now0)) \<le> t
      \<and> t \<le> ts (snd (getYesterdayRangeBerlin now0))
      \<and> reviewed_at (item_from ev0 pnet_down locA rev0) = toFormat t"
    by blast
  then have "\<exists>t. reviewed_at (item_from ev0 pnet_down locA rev0) = toFormat t
          \<and> 1717884000000 \<le> t \<and> t \<le> 1717970399999"
    by (auto simp add: window0)
  with run show ?thesis by blast
qed







text \<open>
  C9, as amended.  The delivered list is the list \<^verbatim>\<open>items\<close>; restricted to any one
  location it is that location's records in the order of its harvest, that is in feed
  order.  With a concurrency limit of at most 1 the workers run one after the other and
  the delivered list is the concatenation of the locations' records in the order the
  locations are listed.
\<close>

theorem delivered_order:
  "main_run fuel ev rnet pnet now locs tagged
   \<longrightarrow> delivered ev tagged = map snd tagged
       \<and> (\<forall>k<length locs. pushed_by k tagged = records_of fuel ev rnet pnet now (locs ! k))
       \<and> (\<forall>k<length locs. \<forall>revs requested.
              loc_id (locs ! k) \<noteq> []
              \<and> harvest_of fuel ev rnet now (locs ! k) = Some (Inr (revs, requested))
              \<longrightarrow> pushed_by k tagged = map (item_from ev pnet (locs ! k)) revs)
       \<and> (CONCURRENCY ev \<le> 1
            \<longrightarrow> delivered ev tagged = concat (map (records_of fuel ev rnet pnet now) locs))"
proof (intro impI conjI allI)
  assume run: "main_run fuel ev rnet pnet now locs tagged"
  show "delivered ev tagged = map snd tagged" by (rule delivered_eq)
  show "pushed_by k tagged = records_of fuel ev rnet pnet now (locs ! k)"
    if "k < length locs" for k
    using main_run_pushed [OF run that] by (simp add: records_of_def)
  then show "pushed_by k tagged = map (item_from ev pnet (locs ! k)) revs"
    if "k < length locs" "loc_id (locs ! k) \<noteq> []
              \<and> harvest_of fuel ev rnet now (locs ! k) = Some (Inr (revs, requested))"
    for k revs requested
    using that by (simp add: records_of_harvest)
  show "delivered ev tagged = concat (map (records_of fuel ev rnet pnet now) locs)"
    if "CONCURRENCY ev \<le> 1"
  proof -
    have "records_of fuel ev rnet pnet now
        = (\<lambda>loc. location_records fuel ev (rnet (loc_id loc)) pnet
              (ts (fst (getYesterdayRangeBerlin now)))
              (ts (snd (getYesterdayRangeBerlin now))) loc)"
      by (rule ext) (simp add: records_of_def)
    then show ?thesis
      using main_run_sequential [OF run that] by (simp add: delivered_eq)
  qed
qed

text \<open>
  C9, as stated, fails: with the default limit of 5 and two locations, the run in which
  the second location's worker pushes first delivers the records in the opposite order.
\<close>

theorem delivered_order_counterexample:
  "main_run 5 ev0 rnet0 pnet_down now0 [locA, locC]
     [(1, item_from ev0 pnet_down locC rev0), (0, item_from ev0 pnet_down locA rev0)]
   \<and> delivered ev0
        [(1, item_from ev0 pnet_down locC rev0), (0, item_from ev0 pnet_down locA rev0)]
      \<noteq> concat (map (records_of 5 ev0 rnet0 pnet_down now0) [locA, locC])"
proof -
  have "locationId (item_from ev0 pnet_down locC rev0)
      \<noteq> locationId (item_from ev0 pnet_down locA rev0)"
    by (simp add: locationId_item_from loc_ids lit_def)
  then have "item_from ev0 pnet_down locC rev0 \<noteq> item_from ev0 pnet_down locA rev0"
    by auto
  then show ?thesis using example_run [of pnet_down] by (simp add: delivered_eq records0)
qed

text \<open>
  The same run, location by location, and a run of the same world with the limit set
  to 1.
\<close>

theorem delivered_order_witness:
  "main_run 5 ev0 rnet0 pnet_down now0 [locA, locC]
     [(1, item_from ev0 pnet_down locC rev0), (0, item_from ev0 pnet_down locA rev0)]
   \<and> pushed_by 0 [(1, item_from ev0 pnet_down locC rev0), (0, item_from ev0 pnet_down locA rev0)]
      = records_of 5 ev0 rnet0 pnet_down now0 locA
   \<and> pushed_by 1 [(1, item_from ev0 pnet_down locC rev0), (0, item_from ev0 pnet_down locA rev0)]
      = records_of 5 ev0 rnet0 pnet_down now0 locC
   \<and> (\<exists>tagged. main_run 5 (ev0\<lparr>CONCURRENCY := 1\<rparr>) rnet0 pnet_down now0 [locA, locC] tagged
         \<and> delivered (ev0\<lparr>CONCURRENCY := 1\<rparr>) tagged
            = concat (map (records_of 5 (ev0\<lparr>CONCURRENCY := 1\<rparr>) rnet0 pnet_down now0)
                [locA, locC]))"
proof -
  let ?tagged = "[(1, item_from ev0 pnet_down locC rev0), (0, item_from ev0 pnet_down locA rev0)]"
  have run: "main_run 5 ev0 rnet0 pnet_down now0 [locA, locC] ?tagged" by (rule example_run)
  have "\<forall>k<length [locA, locC].
      pushed_by k ?tagged = records_of 5 ev0 rnet0 pnet_down now0 ([locA, locC] ! k)"
    using delivered_order [of 5 ev0 rnet0 pnet_down now0 "[locA, locC]" ?tagged] run by blast
  then have p: "pushed_by 0 ?tagged = records_of 5 ev0 rnet0 pnet_down now0 locA"
    "pushed_by 1 ?tagged = records_of 5 ev0 rnet0 pnet_down now0 locC"
    by (simp_all add: less_Suc_eq eval_nat_numeral all_conj_distrib)
  let ?ev1 = "ev0\<lparr>CONCURRENCY := 1\<rparr>"
  have c1: "config_ok ?ev1" using config0 by (simp add: config_ok_def)
  have h1: "harvest_of 5 ?ev1 rnet0 now0 loc = harvest_of 5 ev0 rnet0 now0 loc" for loc
    by (simp add: harvest_of_def)
  have "\<forall>loc\<in>set [locA, locC]. loc_id loc \<noteq> [] \<longrightarrow>
      listReviewsForLocation 5 (rnet0 (loc_id loc)) (GBP_ACCOUNT_ID ?ev1) (loc_id loc)
        (ts (fst (getYesterdayRangeBerlin now0))) (ts (snd (getYesterdayRangeBerlin now0)))
      \<noteq> None"
    using harvest0(1,2) h1 by (simp add: harvest_of_def)
  with c1 obtain tagged where r1: "main_run 5 ?ev1 rnet0 pnet_down now0 [locA, locC] tagged"
    using main_run_exists by blast
  have "CONCURRENCY ?ev1 \<le> 1" by simp
  then have "delivered ?ev1 tagged
      = concat (map (records_of 5 ?ev1 rnet0 pnet_down now0) [locA, locC])"
    using delivered_order [of 5 ?ev1 rnet0 pnet_down now0 "[locA, locC]" tagged] r1 by blast
  with r1 have "\<exists>tagged. main_run 5 ?ev1 rnet0 pnet_down now0 [locA, locC] tagged
         \<and> delivered ?ev1 tagged
            = concat (map (records_of 5 ?ev1 rnet0 pnet_down now0) [locA, locC])"
    by blast
  with run p show ?thesis by blast
qed


end
